theory Spec2Isabelle
  imports Main "HOL-Library.Multiset"
begin

section \<open>Data model (src/src/map.c, struct MapEntry and struct Map)\<close>

text \<open>
  Pointers. A \<open>void*\<close> key or value is an \<open>option\<close>: \<open>None\<close> is \<open>NULL\<close>, \<open>Some x\<close> a
  pointer to the object \<open>x\<close>. A \<open>Map*\<close> is an \<open>option\<close> of the table it points to.
  \<open>mapPut\<close> refuses a \<open>NULL\<close> key, so the key of a stored entry is never \<open>NULL\<close> and has
  the type of the pointed-to object; the value of an entry may be \<open>NULL\<close>.

  A bucket's chain (the entries reached from \<open>buckets[i]\<close> along \<open>next\<close>, ended by
  \<open>NULL\<close>) is the list of its entries, head first. The \<open>next\<close> field is the list
  structure; an entry cell is live exactly while it is in a chain, so \<open>malloc\<close> of an
  entry is a cons and \<open>free\<close> of an entry is its removal from the state.

  \<open>size_t\<close> is \<open>nat\<close>. \<open>size\<close> counts live heap cells, so it stays far below
  \<open>SIZE_MAX\<close> and \<open>size++\<close> does not wrap. \<open>size--\<close> runs only after an entry was found;
  where \<open>size\<close> is the number of entries (\<open>map_inv\<close> below) it is then at least 1 and
  the decrement does not wrap either.

  The bucket array is the list \<open>buckets\<close>. In C it has \<open>capacity\<close> slots and \<open>capacity\<close>
  is not 0 (\<open>mapCreate\<close> and \<open>mapResize\<close> see to both), so that
  \<open>hash(key) % capacity\<close> is defined and indexes the array; \<open>bucket_inv\<close> below states
  this, and the theorems assume it wherever a bucket is indexed.

  The injected release functions have effects outside the table. They are state
  transformers on a world \<open>'w\<close> of the caller's choice, threaded through every operation
  that can call them.
\<close>

record ('k, 'v) MapEntry =
  key :: 'k
  "value" :: "'v option"

record ('k, 'v, 'w) Map =
  buckets :: "('k, 'v) MapEntry list list"
  capacity :: nat
  size' :: nat
  hash :: "'k \<Rightarrow> nat"
  compare :: "'k \<Rightarrow> 'k \<Rightarrow> int"
  freeKey :: "'k \<Rightarrow> 'w \<Rightarrow> 'w"
  freeValue :: "'v option \<Rightarrow> 'w \<Rightarrow> 'w"

section \<open>Operations\<close>

text \<open>\<open>noFree\<close>: the default release function, which does nothing.\<close>

definition noFree :: "'a \<Rightarrow> 'w \<Rightarrow> 'w" where
  "noFree ptr w = w"

text \<open>
  \<open>mapCreate\<close>. \<open>malloc_ok\<close> and \<open>calloc_ok\<close> say whether the allocation of the table
  and of its bucket array succeed. A release function passed as \<open>NULL\<close> (\<open>None\<close>) is
  replaced by \<open>noFree\<close>.
\<close>

definition mapCreate ::
  "nat \<Rightarrow> ('k \<Rightarrow> nat) \<Rightarrow> ('k \<Rightarrow> 'k \<Rightarrow> int) \<Rightarrow> ('k \<Rightarrow> 'w \<Rightarrow> 'w) option \<Rightarrow>
   ('v option \<Rightarrow> 'w \<Rightarrow> 'w) option \<Rightarrow> bool \<Rightarrow> bool \<Rightarrow> ('k, 'v, 'w) Map option" where
  "mapCreate initialCapacity h c fk fv malloc_ok calloc_ok =
    (if initialCapacity = 0 then None
     else if \<not> malloc_ok then None
     else if \<not> calloc_ok then None
     else Some \<lparr>buckets = replicate initialCapacity [],
                capacity = initialCapacity,
                size' = 0,
                hash = h,
                compare = c,
                freeKey = (case fk of Some f \<Rightarrow> f | None \<Rightarrow> noFree),
                freeValue = (case fv of Some f \<Rightarrow> f | None \<Rightarrow> noFree)\<rparr>)"

text \<open>
  The scan of \<open>mapPut\<close> over one chain: at the first entry whose key compares equal,
  the value is replaced; the result is the updated chain and the old value, which the
  caller releases. \<open>None\<close>: the scan reached the end of the chain.
\<close>

fun mapPut_loop ::
  "('k \<Rightarrow> 'k \<Rightarrow> int) \<Rightarrow> ('k, 'v) MapEntry list \<Rightarrow> 'k \<Rightarrow> 'v option \<Rightarrow>
   (('k, 'v) MapEntry list \<times> 'v option) option" where
  "mapPut_loop cmp [] k v = None"
| "mapPut_loop cmp (entry # rest) k v =
    (if cmp (key entry) k = 0 then Some (entry\<lparr>value := v\<rparr> # rest, value entry)
     else (case mapPut_loop cmp rest k v of
             None \<Rightarrow> None
           | Some (rest', old) \<Rightarrow> Some (entry # rest', old)))"

text \<open>
  \<open>mapPut\<close>. \<open>malloc_ok\<close> says whether the allocation of a new entry succeeds, should
  the scan find no entry. The results are the returned flag, the table and the world.
  The overwrite path tests \<open>map->freeValue\<close> before the call; \<open>mapCreate\<close> never stores
  \<open>NULL\<close> there, so the call is always made.
\<close>

definition mapPut ::
  "('k, 'v, 'w) Map option \<Rightarrow> 'k option \<Rightarrow> 'v option \<Rightarrow> bool \<Rightarrow> 'w \<Rightarrow>
   bool \<times> ('k, 'v, 'w) Map option \<times> 'w" where
  "mapPut mp kp v malloc_ok w =
    (case mp of
       None \<Rightarrow> (False, mp, w)
     | Some m \<Rightarrow>
        (case kp of
           None \<Rightarrow> (False, mp, w)
         | Some k \<Rightarrow>
            (let index = hash m k mod capacity m in
             case mapPut_loop (compare m) (buckets m ! index) k v of
               Some (chain', old) \<Rightarrow>
                 (True, Some (m\<lparr>buckets := (buckets m)[index := chain']\<rparr>), freeValue m old w)
             | None \<Rightarrow>
                 if \<not> malloc_ok then (False, mp, w)
                 else (True,
                       Some (m\<lparr>buckets := (buckets m)[index :=
                                  \<lparr>key = k, value = v\<rparr> # buckets m ! index],
                               size' := size' m + 1\<rparr>),
                       w))))"

text \<open>The scan of \<open>mapGet\<close> over one chain: the value of the first matching entry.\<close>

fun mapGet_loop :: "('k \<Rightarrow> 'k \<Rightarrow> int) \<Rightarrow> ('k, 'v) MapEntry list \<Rightarrow> 'k \<Rightarrow> 'v option" where
  "mapGet_loop cmp [] k = None"
| "mapGet_loop cmp (entry # rest) k =
    (if cmp (key entry) k = 0 then value entry else mapGet_loop cmp rest k)"

text \<open>\<open>mapGet\<close> changes nothing, so it returns the value only; \<open>None\<close> is \<open>NULL\<close>.\<close>

definition mapGet :: "('k, 'v, 'w) Map option \<Rightarrow> 'k option \<Rightarrow> 'v option" where
  "mapGet mp kp =
    (case mp of
       None \<Rightarrow> None
     | Some m \<Rightarrow>
        (case kp of
           None \<Rightarrow> None
         | Some k \<Rightarrow> mapGet_loop (compare m) (buckets m ! (hash m k mod capacity m)) k))"

text \<open>
  The scan of \<open>mapRemove\<close> over one chain: the first matching entry is unlinked (from
  the head or from its predecessor); the result is the remaining chain and the entry.
\<close>

fun mapRemove_loop ::
  "('k \<Rightarrow> 'k \<Rightarrow> int) \<Rightarrow> ('k, 'v) MapEntry list \<Rightarrow> 'k \<Rightarrow>
   (('k, 'v) MapEntry list \<times> ('k, 'v) MapEntry) option" where
  "mapRemove_loop cmp [] k = None"
| "mapRemove_loop cmp (entry # rest) k =
    (if cmp (key entry) k = 0 then Some (rest, entry)
     else (case mapRemove_loop cmp rest k of
             None \<Rightarrow> None
           | Some (rest', found) \<Rightarrow> Some (entry # rest', found)))"

definition mapRemove ::
  "('k, 'v, 'w) Map option \<Rightarrow> 'k option \<Rightarrow> 'w \<Rightarrow> bool \<times> ('k, 'v, 'w) Map option \<times> 'w" where
  "mapRemove mp kp w =
    (case mp of
       None \<Rightarrow> (False, mp, w)
     | Some m \<Rightarrow>
        (case kp of
           None \<Rightarrow> (False, mp, w)
         | Some k \<Rightarrow>
            (let index = hash m k mod capacity m in
             case mapRemove_loop (compare m) (buckets m ! index) k of
               Some (chain', entry) \<Rightarrow>
                 (True,
                  Some (m\<lparr>buckets := (buckets m)[index := chain'], size' := size' m - 1\<rparr>),
                  freeValue m (value entry) (freeKey m (key entry) w))
             | None \<Rightarrow> (False, mp, w))))"

definition mapContains :: "('k, 'v, 'w) Map option \<Rightarrow> 'k option \<Rightarrow> bool" where
  "mapContains mp kp = (mapGet mp kp \<noteq> None)"

definition mapSize :: "('k, 'v, 'w) Map option \<Rightarrow> nat" where
  "mapSize mp = (case mp of Some m \<Rightarrow> size' m | None \<Rightarrow> 0)"

text \<open>The inner loop of \<open>mapClear\<close>: key and value of every entry of a chain are released.\<close>

fun mapClear_chain ::
  "('k \<Rightarrow> 'w \<Rightarrow> 'w) \<Rightarrow> ('v option \<Rightarrow> 'w \<Rightarrow> 'w) \<Rightarrow> ('k, 'v) MapEntry list \<Rightarrow> 'w \<Rightarrow> 'w" where
  "mapClear_chain fk fv [] w = w"
| "mapClear_chain fk fv (entry # rest) w =
    mapClear_chain fk fv rest (fv (value entry) (fk (key entry) w))"

text \<open>The body of the outer loop of \<open>mapClear\<close>, for bucket \<open>i\<close>.\<close>

definition mapClear_step ::
  "('k, 'v, 'w) Map \<Rightarrow> nat \<Rightarrow> ('k, 'v) MapEntry list list \<times> 'w \<Rightarrow>
   ('k, 'v) MapEntry list list \<times> 'w" where
  "mapClear_step m i s =
    (case s of (bs, w) \<Rightarrow> (bs[i := []], mapClear_chain (freeKey m) (freeValue m) (bs ! i) w))"

definition mapClear :: "('k, 'v, 'w) Map option \<Rightarrow> 'w \<Rightarrow> ('k, 'v, 'w) Map option \<times> 'w" where
  "mapClear mp w =
    (case mp of
       None \<Rightarrow> (mp, w)
     | Some m \<Rightarrow>
        (case fold (mapClear_step m) [0..<capacity m] (buckets m, w) of
           (bs, w') \<Rightarrow> (Some (m\<lparr>buckets := bs, size' := 0\<rparr>), w')))"

text \<open>\<open>mapDestroy\<close>: the table is cleared and freed; the pointer refers to nothing.\<close>

definition mapDestroy :: "('k, 'v, 'w) Map option \<Rightarrow> 'w \<Rightarrow> ('k, 'v, 'w) Map option \<times> 'w" where
  "mapDestroy mp w = (case mp of None \<Rightarrow> (mp, w) | Some m \<Rightarrow> (None, snd (mapClear mp w)))"

text \<open>
  The inner loop of \<open>mapResize\<close>: every entry of a chain, from its head, is linked in
  front of the new bucket that its key hashes to.
\<close>

fun mapResize_chain ::
  "('k \<Rightarrow> nat) \<Rightarrow> nat \<Rightarrow> ('k, 'v) MapEntry list \<Rightarrow> ('k, 'v) MapEntry list list \<Rightarrow>
   ('k, 'v) MapEntry list list" where
  "mapResize_chain h newCapacity [] newBuckets = newBuckets"
| "mapResize_chain h newCapacity (entry # rest) newBuckets =
    (let newIndex = h (key entry) mod newCapacity in
     mapResize_chain h newCapacity rest
       (newBuckets[newIndex := entry # newBuckets ! newIndex]))"

text \<open>
  \<open>mapResize\<close>. \<open>calloc_ok\<close> says whether the allocation of the new bucket array
  succeeds. No release function is called, so the world is not involved.
\<close>

definition mapResize ::
  "('k, 'v, 'w) Map option \<Rightarrow> nat \<Rightarrow> bool \<Rightarrow> bool \<times> ('k, 'v, 'w) Map option" where
  "mapResize mp newCapacity calloc_ok =
    (case mp of
       None \<Rightarrow> (False, mp)
     | Some m \<Rightarrow>
        if newCapacity = 0 \<or> newCapacity < size' m then (False, mp)
        else if \<not> calloc_ok then (False, mp)
        else (True,
              Some (m\<lparr>buckets :=
                        fold (\<lambda>i. mapResize_chain (hash m) newCapacity (buckets m ! i))
                          [0..<capacity m] (replicate newCapacity []),
                      capacity := newCapacity\<rparr>)))"

section \<open>Contract of the injected functions and invariants of the table\<close>

text \<open>The injected comparison reports equality by 0; equality is an equivalence.\<close>

definition equality_ok :: "('k \<Rightarrow> 'k \<Rightarrow> int) \<Rightarrow> bool" where
  "equality_ok cmp =
    ((\<forall>a. cmp a a = 0) \<and> (\<forall>a b. cmp a b = 0 \<longrightarrow> cmp b a = 0) \<and>
     (\<forall>a b c. cmp a b = 0 \<longrightarrow> cmp b c = 0 \<longrightarrow> cmp a c = 0))"

text \<open>Equal keys hash identically.\<close>

definition hash_consistent :: "('k \<Rightarrow> nat) \<Rightarrow> ('k \<Rightarrow> 'k \<Rightarrow> int) \<Rightarrow> bool" where
  "hash_consistent h cmp = (\<forall>a b. cmp a b = 0 \<longrightarrow> h a = h b)"

text \<open>All entries of the table, bucket by bucket.\<close>

definition entries :: "('k, 'v, 'w) Map \<Rightarrow> ('k, 'v) MapEntry list" where
  "entries m = concat (buckets m)"

text \<open>The entries of the table whose key equals \<open>k\<close>.\<close>

definition holders :: "('k, 'v, 'w) Map \<Rightarrow> 'k \<Rightarrow> ('k, 'v) MapEntry list" where
  "holders m k = filter (\<lambda>e. compare m (key e) k = 0) (entries m)"

text \<open>
  The bucket array has \<open>capacity\<close> slots, at least one, and every entry lies in the
  bucket at index \<open>hash(key) mod capacity\<close>.
\<close>

definition bucket_inv :: "('k, 'v, 'w) Map \<Rightarrow> bool" where
  "bucket_inv m =
    (0 < capacity m \<and> length (buckets m) = capacity m \<and>
     (\<forall>i \<in> set [0..<length (buckets m)]. \<forall>e \<in> set (buckets m ! i).
        hash m (key e) mod capacity m = i))"

text \<open>No two keys of a list are equal.\<close>

fun keys_unique :: "('k \<Rightarrow> 'k \<Rightarrow> int) \<Rightarrow> 'k list \<Rightarrow> bool" where
  "keys_unique cmp [] = True"
| "keys_unique cmp (k # ks) = ((\<forall>k' \<in> set ks. cmp k' k \<noteq> 0) \<and> keys_unique cmp ks)"

text \<open>The invariants of section 3 of the specification.\<close>

definition map_inv :: "('k, 'v, 'w) Map \<Rightarrow> bool" where
  "map_inv m =
    (bucket_inv m \<and> keys_unique (compare m) (map key (entries m)) \<and>
     size' m = length (entries m))"

text \<open>Every entry of a bucket array lies in the bucket its key hashes to.\<close>

definition placed :: "('k \<Rightarrow> nat) \<Rightarrow> ('k, 'v) MapEntry list list \<Rightarrow> bool" where
  "placed h nb =
    (\<forall>i \<in> set [0..<length nb]. \<forall>e \<in> set (nb ! i). h (key e) mod length nb = i)"

text \<open>
  The abstract content of the table: \<open>lookup m k\<close> is \<open>None\<close> when no entry holds a
  key equal to \<open>k\<close>, and \<open>Some v\<close> when the first such entry has the value \<open>v\<close>
  (which may be \<open>NULL\<close>).
\<close>

definition lookup :: "('k, 'v, 'w) Map \<Rightarrow> 'k \<Rightarrow> 'v option option" where
  "lookup m k = map_option value (find (\<lambda>e. compare m (key e) k = 0) (entries m))"

section \<open>Histories of a table\<close>

text \<open>
  A sequence of \<open>mapPut\<close> calls, each with its key, its value and the outcome of the
  allocation it may need; the result lists the flags the calls return.
\<close>

fun mapPut_all ::
  "('k, 'v, 'w) Map option \<Rightarrow> ('k option \<times> 'v option \<times> bool) list \<Rightarrow> 'w \<Rightarrow>
   bool list \<times> ('k, 'v, 'w) Map option \<times> 'w" where
  "mapPut_all mp [] w = ([], mp, w)"
| "mapPut_all mp ((kp, v, malloc_ok) # calls) w =
    (case mapPut mp kp v malloc_ok w of
       (r, mp', w') \<Rightarrow>
         (case mapPut_all mp' calls w' of (rs, mp'', w'') \<Rightarrow> (r # rs, mp'', w'')))"

text \<open>
  The keys and values put: those of the calls that reported success, in order, given
  the calls and the flags they returned.
\<close>

fun succeeded ::
  "('k option \<times> 'v option \<times> bool) list \<Rightarrow> bool list \<Rightarrow> ('k \<times> 'v option) list" where
  "succeeded ((Some k, v, malloc_ok) # calls) (True # rs) = (k, v) # succeeded calls rs"
| "succeeded (call # calls) (r # rs) = succeeded calls rs"
| "succeeded calls rs = []"

text \<open>
  The value most recently put for a key equal to \<open>k\<close>; \<open>None\<close> when no such key was
  put.
\<close>

fun last_put ::
  "('k \<Rightarrow> 'k \<Rightarrow> int) \<Rightarrow> ('k \<times> 'v option) list \<Rightarrow> 'k \<Rightarrow> 'v option option" where
  "last_put cmp [] k = None"
| "last_put cmp ((k', v) # puts) k =
    (case last_put cmp puts k of
       Some x \<Rightarrow> Some x
     | None \<Rightarrow> if cmp k' k = 0 then Some v else None)"

text \<open>The number of distinct keys of a list: a key counts unless an equal one follows.\<close>

fun distinct_keys :: "('k \<Rightarrow> 'k \<Rightarrow> int) \<Rightarrow> 'k list \<Rightarrow> nat" where
  "distinct_keys cmp [] = 0"
| "distinct_keys cmp (k # ks) =
    (if \<exists>k' \<in> set ks. cmp k' k = 0 then distinct_keys cmp ks
     else Suc (distinct_keys cmp ks))"

text \<open>
  The tables a program can reach: \<open>mapCreate\<close> returns one, and every operation that
  changes a table leads from one to the next. \<open>mapGet\<close>, \<open>mapContains\<close> and \<open>mapSize\<close>
  change nothing.
\<close>

inductive reachable :: "('k, 'v, 'w) Map \<Rightarrow> bool" where
  created: "mapCreate n h c fk fv malloc_ok calloc_ok = Some m \<Longrightarrow> reachable m"
| after_put: "reachable m \<Longrightarrow> mapPut (Some m) kp v malloc_ok w = (r, Some m', w') \<Longrightarrow> reachable m'"
| after_remove: "reachable m \<Longrightarrow> mapRemove (Some m) kp w = (r, Some m', w') \<Longrightarrow> reachable m'"
| after_clear: "reachable m \<Longrightarrow> mapClear (Some m) w = (Some m', w') \<Longrightarrow> reachable m'"
| after_resize: "reachable m \<Longrightarrow> mapResize (Some m) n calloc_ok = (r, Some m') \<Longrightarrow> reachable m'"

text \<open>
  The operations that change a table, as a program may call them one after another;
  the flags they return are dropped.
\<close>

datatype ('k, 'v) operation =
  Put "'k option" "'v option" bool | Remove "'k option" | Resize nat bool

fun apply_operation ::
  "('k, 'v) operation \<Rightarrow> ('k, 'v, 'w) Map option \<times> 'w \<Rightarrow> ('k, 'v, 'w) Map option \<times> 'w" where
  "apply_operation (Put kp v malloc_ok) (mp, w) = snd (mapPut mp kp v malloc_ok w)"
| "apply_operation (Remove kp) (mp, w) = snd (mapRemove mp kp w)"
| "apply_operation (Resize newCapacity calloc_ok) (mp, w) =
    (snd (mapResize mp newCapacity calloc_ok), w)"

text \<open>An operation that puts or removes a key equal to \<open>k\<close>.\<close>

fun touches :: "('k \<Rightarrow> 'k \<Rightarrow> int) \<Rightarrow> 'k \<Rightarrow> ('k, 'v) operation \<Rightarrow> bool" where
  "touches cmp k (Put (Some k') v malloc_ok) = (cmp k k' = 0)"
| "touches cmp k (Remove (Some k')) = (cmp k k' = 0)"
| "touches cmp k _ = False"

section \<open>An instantiation\<close>

text \<open>
  Keys are numbers, compared by their difference and hashed to themselves; values are
  strings. The release functions record their calls, in order, in the world.
\<close>

datatype ('k, 'v) released = ReleasedKey 'k | ReleasedValue "'v option"

definition natCompare :: "nat \<Rightarrow> nat \<Rightarrow> int" where
  "natCompare a b = int a - int b"

definition natHash :: "nat \<Rightarrow> nat" where
  "natHash k = k"

definition logKey :: "'k \<Rightarrow> ('k, 'v) released list \<Rightarrow> ('k, 'v) released list" where
  "logKey k w = w @ [ReleasedKey k]"

definition logValue :: "'v option \<Rightarrow> ('k, 'v) released list \<Rightarrow> ('k, 'v) released list" where
  "logValue v w = w @ [ReleasedValue v]"

text \<open>A fresh table of two buckets.\<close>

definition fresh_table :: "(nat, string, (nat, string) released list) Map" where
  "fresh_table =
    \<lparr>buckets = [[], []], capacity = 2, size' = 0, hash = natHash, compare = natCompare,
     freeKey = logKey, freeValue = logValue\<rparr>"

text \<open>A table of two buckets with three entries; the keys 3 and 1 share a bucket.\<close>

definition demo_table :: "(nat, string, (nat, string) released list) Map" where
  "demo_table =
    \<lparr>buckets = [[\<lparr>key = 2, value = Some ''two''\<rparr>],
                [\<lparr>key = 3, value = Some ''three''\<rparr>, \<lparr>key = 1, value = Some ''one''\<rparr>]],
     capacity = 2, size' = 3, hash = natHash, compare = natCompare,
     freeKey = logKey, freeValue = logValue\<rparr>"

section \<open>The invariants, index by index\<close>

lemma bucket_inv_iff:
  "bucket_inv m \<longleftrightarrow>
    0 < capacity m \<and> length (buckets m) = capacity m \<and>
    (\<forall>i < length (buckets m). \<forall>e \<in> set (buckets m ! i). hash m (key e) mod capacity m = i)"
  by (auto simp: bucket_inv_def)

lemma placed_iff:
  "placed h nb \<longleftrightarrow>
    (\<forall>i < length nb. \<forall>e \<in> set (nb ! i). h (key e) mod length nb = i)"
  by (auto simp: placed_def)

section \<open>The chain scans\<close>

lemma mapGet_loop_none:
  "\<forall>e \<in> set chain. cmp (key e) k \<noteq> 0 \<Longrightarrow> mapGet_loop cmp chain k = None"
  by (induction chain) auto

lemma mapGet_loop_first:
  "\<forall>x \<in> set pre. cmp (key x) k \<noteq> 0 \<Longrightarrow> cmp (key e) k = 0 \<Longrightarrow>
   mapGet_loop cmp (pre @ e # post) k = value e"
  by (induction pre) auto

lemma mapPut_loop_None_iff:
  "mapPut_loop cmp chain k v = None \<longleftrightarrow> (\<forall>e \<in> set chain. cmp (key e) k \<noteq> 0)"
  by (induction chain) (auto split: option.splits)

lemma mapPut_loop_Some:
  "mapPut_loop cmp chain k v = Some (chain', old) \<Longrightarrow>
   \<exists>pre e post. chain = pre @ e # post \<and> (\<forall>x \<in> set pre. cmp (key x) k \<noteq> 0) \<and>
     cmp (key e) k = 0 \<and> chain' = pre @ e\<lparr>value := v\<rparr> # post \<and> old = value e"
proof (induction chain arbitrary: chain')
  case Nil
  then show ?case by simp
next
  case (Cons a chain)
  show ?case
  proof (cases "cmp (key a) k = 0")
    case True
    with Cons.prems have "chain' = a\<lparr>value := v\<rparr> # chain" "old = value a" by auto
    with True show ?thesis by (intro exI[of _ "[]"] exI[of _ a] exI[of _ chain]) simp
  next
    case False
    with Cons.prems obtain rest' where r: "mapPut_loop cmp chain k v = Some (rest', old)"
      and c': "chain' = a # rest'"
      by (auto split: option.splits)
    from Cons.IH[OF r] obtain pre e post where
      "chain = pre @ e # post" "\<forall>x \<in> set pre. cmp (key x) k \<noteq> 0" "cmp (key e) k = 0"
      "rest' = pre @ e\<lparr>value := v\<rparr> # post" "old = value e" by blast
    with False c' show ?thesis
      by (intro exI[of _ "a # pre"] exI[of _ e] exI[of _ post]) simp
  qed
qed

lemma mapRemove_loop_None_iff:
  "mapRemove_loop cmp chain k = None \<longleftrightarrow> (\<forall>e \<in> set chain. cmp (key e) k \<noteq> 0)"
  by (induction chain) (auto split: option.splits)

lemma mapRemove_loop_Some:
  "mapRemove_loop cmp chain k = Some (chain', found) \<Longrightarrow>
   \<exists>pre post. chain = pre @ found # post \<and> (\<forall>x \<in> set pre. cmp (key x) k \<noteq> 0) \<and>
     cmp (key found) k = 0 \<and> chain' = pre @ post"
proof (induction chain arbitrary: chain')
  case Nil
  then show ?case by simp
next
  case (Cons a chain)
  show ?case
  proof (cases "cmp (key a) k = 0")
    case True
    with Cons.prems have "chain' = chain" "found = a" by auto
    with True show ?thesis by (intro exI[of _ "[]"] exI[of _ chain]) simp
  next
    case False
    with Cons.prems obtain rest' where r: "mapRemove_loop cmp chain k = Some (rest', found)"
      and c': "chain' = a # rest'"
      by (auto split: option.splits)
    from Cons.IH[OF r] obtain pre post where
      "chain = pre @ found # post" "\<forall>x \<in> set pre. cmp (key x) k \<noteq> 0" "cmp (key found) k = 0"
      "rest' = pre @ post" by blast
    with False c' show ?thesis
      by (intro exI[of _ "a # pre"] exI[of _ post]) simp
  qed
qed

lemma index_in_range: "bucket_inv m \<Longrightarrow> hash m k mod capacity m < length (buckets m)"
  by (simp add: bucket_inv_iff)

section \<open>Buckets, entries and unique keys\<close>

lemma concat_upd:
  "i < length bs \<Longrightarrow> concat (bs[i := c]) = concat (take i bs) @ c @ concat (drop (Suc i) bs)"
  by (simp add: upd_conv_take_nth_drop)

lemma concat_split:
  "i < length bs \<Longrightarrow> concat bs = concat (take i bs) @ bs ! i @ concat (drop (Suc i) bs)"
  using concat_upd[of i bs "bs ! i"] by simp

lemma in_other_bucket:
  assumes "e \<in> set (concat (take i bs)) \<union> set (concat (drop (Suc i) bs))"
  shows "\<exists>j < length bs. j \<noteq> i \<and> e \<in> set (bs ! j)"
proof -
  from assms consider c where "c \<in> set (take i bs)" "e \<in> set c"
    | c where "c \<in> set (drop (Suc i) bs)" "e \<in> set c" by auto
  then show ?thesis
  proof cases
    case 1
    then obtain j where "j < length (take i bs)" "take i bs ! j = c"
      by (auto simp: in_set_conv_nth)
    with 1 show ?thesis by (intro exI[of _ j]) auto
  next
    case 2
    then obtain j where "j < length (drop (Suc i) bs)" "drop (Suc i) bs ! j = c"
      by (auto simp: in_set_conv_nth)
    with 2 show ?thesis by (intro exI[of _ "Suc i + j"]) auto
  qed
qed

lemma in_entries_iff:
  "e \<in> set (entries m) \<longleftrightarrow> (\<exists>j < length (buckets m). e \<in> set (buckets m ! j))"
proof -
  have "e \<in> set (entries m) \<longleftrightarrow> (\<exists>c \<in> set (buckets m). e \<in> set c)"
    by (auto simp: entries_def)
  also have "\<dots> \<longleftrightarrow> (\<exists>j < length (buckets m). e \<in> set (buckets m ! j))"
    by (metis in_set_conv_nth)
  finally show ?thesis .
qed

lemma keys_unique_append:
  "keys_unique cmp (xs @ ys) \<longleftrightarrow>
   keys_unique cmp xs \<and> keys_unique cmp ys \<and> (\<forall>x \<in> set xs. \<forall>y \<in> set ys. cmp y x \<noteq> 0)"
  by (induction xs) auto

lemma keys_unique_alt:
  assumes "equality_ok cmp"
  shows "keys_unique cmp ks \<longleftrightarrow>
    distinct ks \<and> (\<forall>a \<in> set ks. \<forall>b \<in> set ks. a \<noteq> b \<longrightarrow> cmp a b \<noteq> 0)"
proof (induction ks)
  case Nil
  then show ?case by simp
next
  case (Cons k ks)
  from assms have refl: "\<And>a. cmp a a = 0" and sym: "\<And>a b. cmp a b = 0 \<Longrightarrow> cmp b a = 0"
    unfolding equality_ok_def by blast+
  have a: "k \<notin> set ks" if "\<forall>k' \<in> set ks. cmp k' k \<noteq> 0"
    using that refl by blast
  have b: "cmp k b \<noteq> 0" if "\<forall>k' \<in> set ks. cmp k' k \<noteq> 0" "b \<in> set ks" for b
    using that sym by blast
  show ?case
  proof
    assume l: "keys_unique cmp (k # ks)"
    then have 1: "\<forall>k' \<in> set ks. cmp k' k \<noteq> 0" and 2: "keys_unique cmp ks" by simp_all
    from 2 Cons.IH have 3: "distinct ks" "\<forall>a \<in> set ks. \<forall>b \<in> set ks. a \<noteq> b \<longrightarrow> cmp a b \<noteq> 0"
      by blast+
    from a[OF 1] 3(1) have "distinct (k # ks)" by simp
    moreover have "\<forall>a \<in> set (k # ks). \<forall>b \<in> set (k # ks). a \<noteq> b \<longrightarrow> cmp a b \<noteq> 0"
      using 1 3(2) b[OF 1] by (simp (no_asm_simp))
    ultimately show "distinct (k # ks) \<and>
      (\<forall>a \<in> set (k # ks). \<forall>b \<in> set (k # ks). a \<noteq> b \<longrightarrow> cmp a b \<noteq> 0)" ..
  next
    assume r: "distinct (k # ks) \<and>
      (\<forall>a \<in> set (k # ks). \<forall>b \<in> set (k # ks). a \<noteq> b \<longrightarrow> cmp a b \<noteq> 0)"
    then have "k \<notin> set ks" "distinct ks" by simp_all
    moreover from r have p: "\<And>a b. a \<in> set (k # ks) \<Longrightarrow> b \<in> set (k # ks) \<Longrightarrow> a \<noteq> b \<Longrightarrow> cmp a b \<noteq> 0"
      by blast
    ultimately have "\<forall>k' \<in> set ks. cmp k' k \<noteq> 0"
      by (metis list.set_intros(1) list.set_intros(2))
    moreover have "keys_unique cmp ks"
      using Cons.IH \<open>distinct ks\<close> p by (metis list.set_intros(2))
    ultimately show "keys_unique cmp (k # ks)" by simp
  qed
qed

lemma keys_unique_mset:
  assumes ok: "equality_ok cmp" and ms: "mset ks = mset ks'"
  shows "keys_unique cmp ks = keys_unique cmp ks'"
proof -
  from ms have "set ks = set ks'" by (rule mset_eq_setD)
  moreover from ms have "distinct ks = distinct ks'" by (rule mset_eq_imp_distinct_iff)
  ultimately show ?thesis unfolding keys_unique_alt[OF ok] by simp
qed


text \<open>Entries outside the bucket of \<open>k\<close> do not hold \<open>k\<close>.\<close>

lemma other_bucket_no_match:
  assumes inv: "bucket_inv m" and hc: "hash_consistent (hash m) (compare m)"
    and j: "j < length (buckets m)" "j \<noteq> hash m k mod capacity m" and e: "e \<in> set (buckets m ! j)"
  shows "compare m (key e) k \<noteq> 0"
proof
  assume "compare m (key e) k = 0"
  with hc have "hash m (key e) = hash m k" by (simp add: hash_consistent_def)
  moreover from inv j e have "hash m (key e) mod capacity m = j" by (simp add: bucket_inv_iff)
  ultimately show False using j by simp
qed

lemma present_iff_in_chain:
  assumes inv: "bucket_inv m" and hc: "hash_consistent (hash m) (compare m)"
  shows "(\<exists>e \<in> set (entries m). compare m (key e) k = 0) \<longleftrightarrow>
         (\<exists>e \<in> set (buckets m ! (hash m k mod capacity m)). compare m (key e) k = 0)"
proof
  assume "\<exists>e \<in> set (entries m). compare m (key e) k = 0"
  then obtain e j where e: "compare m (key e) k = 0" "j < length (buckets m)"
    "e \<in> set (buckets m ! j)" by (auto simp: in_entries_iff)
  with other_bucket_no_match[OF inv hc, of j k e] have "j = hash m k mod capacity m" by blast
  with e show "\<exists>e \<in> set (buckets m ! (hash m k mod capacity m)). compare m (key e) k = 0"
    by blast
next
  assume "\<exists>e \<in> set (buckets m ! (hash m k mod capacity m)). compare m (key e) k = 0"
  then obtain e where e: "e \<in> set (buckets m ! (hash m k mod capacity m))"
    "compare m (key e) k = 0" by blast
  with index_in_range[OF inv, of k] have "e \<in> set (entries m)"
    unfolding in_entries_iff by blast
  with e show "\<exists>e \<in> set (entries m). compare m (key e) k = 0" by blast
qed

section \<open>The operations by cases\<close>

lemma mapGet_loop_append:
  "mapGet_loop cmp (xs @ ys) k =
    (if \<exists>x \<in> set xs. cmp (key x) k = 0 then mapGet_loop cmp xs k else mapGet_loop cmp ys k)"
  by (induction xs) auto

lemma mapPut_loop_first:
  "\<forall>x \<in> set pre. cmp (key x) k \<noteq> 0 \<Longrightarrow> cmp (key e) k = 0 \<Longrightarrow>
   mapPut_loop cmp (pre @ e # post) k v = Some (pre @ e\<lparr>value := v\<rparr> # post, value e)"
  by (induction pre) auto

lemma mapRemove_loop_first:
  "\<forall>x \<in> set pre. cmp (key x) k \<noteq> 0 \<Longrightarrow> cmp (key e) k = 0 \<Longrightarrow>
   mapRemove_loop cmp (pre @ e # post) k = Some (pre @ post, e)"
  by (induction pre) auto

lemma first_match:
  assumes "\<exists>e \<in> set chain. cmp (key e) k = 0"
  obtains pre e post where "chain = pre @ e # post" "\<forall>x \<in> set pre. cmp (key x) k \<noteq> 0"
    "cmp (key e) k = 0"
  using split_list_first_prop[OF assms] by blast

lemma bucket_inv_size [simp]: "bucket_inv (m\<lparr>size' := n\<rparr>) = bucket_inv m"
  by (simp add: bucket_inv_iff)

lemma entries_size [simp]: "entries (m\<lparr>size' := n\<rparr>) = entries m"
  by (simp add: entries_def)

lemma entries_buckets [simp]: "entries (m\<lparr>buckets := bs\<rparr>) = concat bs"
  by (simp add: entries_def)

lemma bucket_inv_upd:
  assumes inv: "bucket_inv m" and i: "i < length (buckets m)"
    and c: "\<forall>e \<in> set c. hash m (key e) mod capacity m = i"
  shows "bucket_inv (m\<lparr>buckets := (buckets m)[i := c]\<rparr>)"
  using assms by (auto simp: bucket_inv_iff nth_list_update)

text \<open>What \<open>mapPut\<close> does when the scanned chain holds no equal key.\<close>

lemma mapPut_new:
  assumes "\<forall>e \<in> set (buckets m ! (hash m k mod capacity m)). compare m (key e) k \<noteq> 0"
  shows "mapPut (Some m) (Some k) v malloc_ok w =
    (if malloc_ok
     then (True,
           Some (m\<lparr>buckets := (buckets m)[hash m k mod capacity m :=
                     \<lparr>key = k, value = v\<rparr> # buckets m ! (hash m k mod capacity m)],
                   size' := size' m + 1\<rparr>), w)
     else (False, Some m, w))"
  using assms by (simp add: mapPut_def Let_def mapPut_loop_None_iff[THEN iffD2])

text \<open>What \<open>mapPut\<close> does when the scanned chain holds an equal key.\<close>

lemma mapPut_update:
  assumes "buckets m ! (hash m k mod capacity m) = pre @ e # post"
    and "\<forall>x \<in> set pre. compare m (key x) k \<noteq> 0" and "compare m (key e) k = 0"
  shows "mapPut (Some m) (Some k) v malloc_ok w =
    (True,
     Some (m\<lparr>buckets := (buckets m)[hash m k mod capacity m := pre @ e\<lparr>value := v\<rparr> # post]\<rparr>),
     freeValue m (value e) w)"
  using assms by (simp add: mapPut_def Let_def mapPut_loop_first)

text \<open>A failing \<open>mapPut\<close> changes nothing.\<close>

lemma mapPut_failed:
  assumes "mapPut mp kp v malloc_ok w = (False, mp', w')"
  shows "mp' = mp \<and> w' = w"
  using assms by (auto simp: mapPut_def Let_def split: option.splits if_splits)

lemma mapRemove_absent:
  assumes "\<forall>e \<in> set (buckets m ! (hash m k mod capacity m)). compare m (key e) k \<noteq> 0"
  shows "mapRemove (Some m) (Some k) w = (False, Some m, w)"
  using assms by (simp add: mapRemove_def Let_def mapRemove_loop_None_iff[THEN iffD2])

lemma mapRemove_present:
  assumes "buckets m ! (hash m k mod capacity m) = pre @ e # post"
    and "\<forall>x \<in> set pre. compare m (key x) k \<noteq> 0" and "compare m (key e) k = 0"
  shows "mapRemove (Some m) (Some k) w =
    (True,
     Some (m\<lparr>buckets := (buckets m)[hash m k mod capacity m := pre @ post],
             size' := size' m - 1\<rparr>),
     freeValue m (value e) (freeKey m (key e) w))"
  using assms by (simp add: mapRemove_def Let_def mapRemove_loop_first)

lemma mapGet_absent:
  assumes "\<forall>e \<in> set (buckets m ! (hash m k mod capacity m)). compare m (key e) k \<noteq> 0"
  shows "mapGet (Some m) (Some k) = None"
  using assms by (simp add: mapGet_def mapGet_loop_none)

lemma mapGet_present:
  assumes "buckets m ! (hash m k mod capacity m) = pre @ e # post"
    and "\<forall>x \<in> set pre. compare m (key x) k \<noteq> 0" and "compare m (key e) k = 0"
  shows "mapGet (Some m) (Some k) = value e"
  using assms by (simp add: mapGet_def mapGet_loop_first)

section \<open>The invariants under \<open>mapPut\<close> and \<open>mapRemove\<close>\<close>

lemma keys_unique_insert:
  "keys_unique cmp (xs @ ys) \<Longrightarrow> \<forall>x \<in> set (xs @ ys). cmp x k \<noteq> 0 \<and> cmp k x \<noteq> 0 \<Longrightarrow>
   keys_unique cmp (xs @ k # ys)"
  by (auto simp: keys_unique_append)

lemma keys_unique_delete:
  "keys_unique cmp (xs @ k # ys) \<Longrightarrow> keys_unique cmp (xs @ ys)"
  by (auto simp: keys_unique_append)

lemma no_holder_anywhere:
  assumes inv: "bucket_inv m" and hc: "hash_consistent (hash m) (compare m)"
    and ok: "equality_ok (compare m)"
    and no: "\<forall>e \<in> set (buckets m ! (hash m k mod capacity m)). compare m (key e) k \<noteq> 0"
    and e: "e \<in> set (entries m)"
  shows "compare m (key e) k \<noteq> 0 \<and> compare m k (key e) \<noteq> 0"
proof -
  from present_iff_in_chain[OF inv hc, of k] no e have 1: "compare m (key e) k \<noteq> 0" by blast
  from ok have "\<And>a b. compare m a b = 0 \<Longrightarrow> compare m b a = 0"
    unfolding equality_ok_def by blast
  with 1 show ?thesis by blast
qed

lemma map_inv_put_new:
  assumes inv: "map_inv m" and ok: "equality_ok (compare m)"
    and hc: "hash_consistent (hash m) (compare m)"
    and no: "\<forall>e \<in> set (buckets m ! (hash m k mod capacity m)). compare m (key e) k \<noteq> 0"
  shows "map_inv (m\<lparr>buckets := (buckets m)[hash m k mod capacity m :=
                     \<lparr>key = k, value = v\<rparr> # buckets m ! (hash m k mod capacity m)],
                   size' := size' m + 1\<rparr>)"
proof -
  let ?i = "hash m k mod capacity m"
  let ?bs = "buckets m"
  let ?A = "concat (take ?i ?bs)" and ?B = "concat (drop (Suc ?i) ?bs)"
  from inv have binv: "bucket_inv m" and uniq: "keys_unique (compare m) (map key (entries m))"
    and sz: "size' m = length (entries m)" by (simp_all add: map_inv_def)
  have i: "?i < length ?bs" using binv by (rule index_in_range)
  have old: "entries m = ?A @ ?bs ! ?i @ ?B"
    unfolding entries_def using i by (rule concat_split)
  have new: "concat (?bs[?i := \<lparr>key = k, value = v\<rparr> # ?bs ! ?i])
      = ?A @ (\<lparr>key = k, value = v\<rparr> # ?bs ! ?i) @ ?B"
    using i by (rule concat_upd)
  have 1: "bucket_inv (m\<lparr>buckets := ?bs[?i := \<lparr>key = k, value = v\<rparr> # ?bs ! ?i]\<rparr>)"
    using binv i by (rule bucket_inv_upd) (use binv i in \<open>auto simp: bucket_inv_iff\<close>)
  have "\<forall>x \<in> set (map key ?A @ map key (?bs ! ?i @ ?B)).
      compare m x k \<noteq> 0 \<and> compare m k x \<noteq> 0"
    using no_holder_anywhere[OF binv hc ok no] unfolding old by auto
  moreover have "keys_unique (compare m) (map key ?A @ map key (?bs ! ?i @ ?B))"
    using uniq unfolding old by simp
  ultimately have "keys_unique (compare m) (map key ?A @ k # map key (?bs ! ?i @ ?B))"
    by (intro keys_unique_insert)
  then have 2: "keys_unique (compare m)
      (map key (concat (?bs[?i := \<lparr>key = k, value = v\<rparr> # ?bs ! ?i])))"
    unfolding new by simp
  have 3: "size' m + 1 = length (concat (?bs[?i := \<lparr>key = k, value = v\<rparr> # ?bs ! ?i]))"
    unfolding new using sz old by simp
  from 1 2 3 show ?thesis by (simp add: map_inv_def)
qed

lemma map_inv_put_update:
  assumes inv: "map_inv m"
    and ch: "buckets m ! (hash m k mod capacity m) = pre @ e # post"
  shows "map_inv (m\<lparr>buckets := (buckets m)[hash m k mod capacity m :=
                     pre @ e\<lparr>value := v\<rparr> # post]\<rparr>)"
proof -
  let ?i = "hash m k mod capacity m"
  let ?bs = "buckets m"
  let ?A = "concat (take ?i ?bs)" and ?B = "concat (drop (Suc ?i) ?bs)"
  from inv have binv: "bucket_inv m" and uniq: "keys_unique (compare m) (map key (entries m))"
    and sz: "size' m = length (entries m)" by (simp_all add: map_inv_def)
  have i: "?i < length ?bs" using binv by (rule index_in_range)
  have old: "entries m = ?A @ (pre @ e # post) @ ?B"
    unfolding entries_def ch[symmetric] using i by (rule concat_split)
  have new: "concat (?bs[?i := pre @ e\<lparr>value := v\<rparr> # post])
      = ?A @ (pre @ e\<lparr>value := v\<rparr> # post) @ ?B"
    using i by (rule concat_upd)
  have "\<forall>x \<in> set (pre @ e\<lparr>value := v\<rparr> # post). hash m (key x) mod capacity m = ?i"
    using binv i ch by (auto simp: bucket_inv_iff)
  with binv i have 1: "bucket_inv (m\<lparr>buckets := ?bs[?i := pre @ e\<lparr>value := v\<rparr> # post]\<rparr>)"
    by (rule bucket_inv_upd)
  have keys: "map key (concat (?bs[?i := pre @ e\<lparr>value := v\<rparr> # post])) = map key (entries m)"
    unfolding new old by simp
  have len: "length (concat (?bs[?i := pre @ e\<lparr>value := v\<rparr> # post])) = length (entries m)"
    unfolding new old by simp
  from 1 uniq sz keys len show ?thesis by (simp add: map_inv_def)
qed

lemma map_inv_remove:
  assumes inv: "map_inv m"
    and ch: "buckets m ! (hash m k mod capacity m) = pre @ e # post"
  shows "map_inv (m\<lparr>buckets := (buckets m)[hash m k mod capacity m := pre @ post],
                   size' := size' m - 1\<rparr>)"
proof -
  let ?i = "hash m k mod capacity m"
  let ?bs = "buckets m"
  let ?A = "concat (take ?i ?bs)" and ?B = "concat (drop (Suc ?i) ?bs)"
  from inv have binv: "bucket_inv m" and uniq: "keys_unique (compare m) (map key (entries m))"
    and sz: "size' m = length (entries m)" by (simp_all add: map_inv_def)
  have i: "?i < length ?bs" using binv by (rule index_in_range)
  have old: "entries m = ?A @ (pre @ e # post) @ ?B"
    unfolding entries_def ch[symmetric] using i by (rule concat_split)
  have new: "concat (?bs[?i := pre @ post]) = ?A @ (pre @ post) @ ?B"
    using i by (rule concat_upd)
  have "\<forall>x \<in> set (pre @ post). hash m (key x) mod capacity m = ?i"
    using binv i ch by (auto simp: bucket_inv_iff)
  with binv i have 1: "bucket_inv (m\<lparr>buckets := ?bs[?i := pre @ post]\<rparr>)"
    by (rule bucket_inv_upd)
  have "keys_unique (compare m) ((map key ?A @ map key pre) @ key e # (map key post @ map key ?B))"
    using uniq unfolding old by simp
  then have "keys_unique (compare m) ((map key ?A @ map key pre) @ (map key post @ map key ?B))"
    by (rule keys_unique_delete)
  then have 2: "keys_unique (compare m) (map key (concat (?bs[?i := pre @ post])))"
    unfolding new by simp
  have 3: "size' m - 1 = length (concat (?bs[?i := pre @ post]))"
    unfolding new using sz old by simp
  from 1 2 3 show ?thesis by (simp add: map_inv_def)
qed

section \<open>The loops of \<open>mapClear\<close> and \<open>mapResize\<close>\<close>

lemma mapClear_chain_append:
  "mapClear_chain fk fv (xs @ ys) w = mapClear_chain fk fv ys (mapClear_chain fk fv xs w)"
  by (induction xs arbitrary: w) auto

lemma mapClear_prefix:
  "j \<le> length bs \<Longrightarrow>
   fold (mapClear_step m) [0..<j] (bs, w) =
     (replicate j [] @ drop j bs, mapClear_chain (freeKey m) (freeValue m) (concat (take j bs)) w)"
proof (induction j)
  case 0
  then show ?case by simp
next
  case (Suc j)
  then have j: "j < length bs" by simp
  have upd: "(replicate j [] @ drop j bs)[j := []] = replicate (Suc j) [] @ drop (Suc j) bs"
    using j by (simp add: list_update_append replicate_append_same Cons_nth_drop_Suc[symmetric])
  have nth: "(replicate j [] @ drop j bs) ! j = bs ! j"
    using j by (simp add: nth_append)
  from Suc show ?case
    by (simp add: mapClear_step_def upd nth take_Suc_conv_app_nth[OF j] mapClear_chain_append
        del: replicate_Suc)
qed

lemma mapClear_live:
  assumes "length (buckets m) = capacity m"
  shows "mapClear (Some m) w =
    (Some (m\<lparr>buckets := replicate (capacity m) [], size' := 0\<rparr>),
     mapClear_chain (freeKey m) (freeValue m) (entries m) w)"
  using mapClear_prefix[of "capacity m" "buckets m" m w] assms
  by (simp add: mapClear_def entries_def)

lemma fold_index:
  "fold (\<lambda>i. f (bs ! i)) [0..<length bs] s = fold f bs s"
proof (induction bs arbitrary: s rule: rev_induct)
  case Nil
  then show ?case by simp
next
  case (snoc b bs)
  have "fold (\<lambda>i. f ((bs @ [b]) ! i)) [0..<length bs] s = fold (\<lambda>i. f (bs ! i)) [0..<length bs] s"
    by (rule fold_cong) (simp_all add: nth_append)
  with snoc show ?case by simp
qed

lemma mapResize_chain_length [simp]:
  "length (mapResize_chain h n chain nb) = length nb"
  by (induction chain arbitrary: nb) (auto simp: Let_def)

lemma mset_concat_cons:
  assumes "i < length nb"
  shows "mset (concat (nb[i := e # nb ! i])) = add_mset e (mset (concat nb))"
proof -
  have "mset (concat (nb[i := e # nb ! i]))
      = mset (concat (take i nb) @ (e # nb ! i) @ concat (drop (Suc i) nb))"
    using assms by (simp only: concat_upd)
  also have "\<dots> = add_mset e (mset (concat (take i nb) @ nb ! i @ concat (drop (Suc i) nb)))"
    by simp
  also have "\<dots> = add_mset e (mset (concat nb))"
    using concat_split[OF assms] by simp
  finally show ?thesis .
qed

lemma mapResize_chain_mset:
  "0 < length nb \<Longrightarrow>
   mset (concat (mapResize_chain h (length nb) chain nb)) = mset chain + mset (concat nb)"
proof (induction chain arbitrary: nb)
  case Nil
  then show ?case by simp
next
  case (Cons e chain)
  let ?i = "h (key e) mod length nb"
  have i: "?i < length nb" using Cons.prems by simp
  have "mset (concat (mapResize_chain h (length nb) chain (nb[?i := e # nb ! ?i])))
      = mset chain + mset (concat (nb[?i := e # nb ! ?i]))"
    using Cons.IH[of "nb[?i := e # nb ! ?i]"] Cons.prems by simp
  then show ?case by (simp add: Let_def mset_concat_cons[OF i])
qed

lemma mapResize_chain_placed:
  "0 < length nb \<Longrightarrow> placed h nb \<Longrightarrow> placed h (mapResize_chain h (length nb) chain nb)"
proof (induction chain arbitrary: nb)
  case Nil
  then show ?case by simp
next
  case (Cons e chain)
  let ?i = "h (key e) mod length nb"
  have i: "?i < length nb" using Cons.prems by simp
  have "placed h (nb[?i := e # nb ! ?i])"
    using Cons.prems(2) i by (auto simp: placed_iff nth_list_update)
  from Cons.IH[of "nb[?i := e # nb ! ?i]"] this Cons.prems(1) show ?case
    by (simp add: Let_def)
qed

lemma mapResize_fold:
  assumes "0 < length nb"
  shows "length (fold (mapResize_chain h (length nb)) bs nb) = length nb \<and>
    mset (concat (fold (mapResize_chain h (length nb)) bs nb)) =
      mset (concat bs) + mset (concat nb) \<and>
    (placed h nb \<longrightarrow> placed h (fold (mapResize_chain h (length nb)) bs nb))"
  using assms
proof (induction bs arbitrary: nb)
  case Nil
  then show ?case by simp
next
  case (Cons c bs)
  let ?nb = "mapResize_chain h (length nb) c nb"
  have len: "length ?nb = length nb" by simp
  from Cons.IH[of ?nb] Cons.prems len
  have IH: "length (fold (mapResize_chain h (length nb)) bs ?nb) = length nb"
    "mset (concat (fold (mapResize_chain h (length nb)) bs ?nb)) =
       mset (concat bs) + mset (concat ?nb)"
    "placed h ?nb \<longrightarrow> placed h (fold (mapResize_chain h (length nb)) bs ?nb)"
    by simp_all
  from IH mapResize_chain_mset[OF Cons.prems, of h c] mapResize_chain_placed[OF Cons.prems, of h c]
  show ?case by simp
qed

section \<open>The abstract content\<close>

lemma lookup_None_iff:
  "lookup m k = None \<longleftrightarrow> (\<forall>e \<in> set (entries m). compare m (key e) k \<noteq> 0)"
  by (auto simp: lookup_def find_None_iff)

lemma same_holder:
  assumes uniq: "keys_unique cmp (map key es)" and ok: "equality_ok cmp"
    and e: "e \<in> set es" "cmp (key e) k = 0" and e': "e' \<in> set es" "cmp (key e') k = 0"
  shows "e = e'"
proof -
  from ok have sym: "\<And>a b. cmp a b = 0 \<Longrightarrow> cmp b a = 0"
    and trans: "\<And>a b c. cmp a b = 0 \<Longrightarrow> cmp b c = 0 \<Longrightarrow> cmp a c = 0"
    unfolding equality_ok_def by blast+
  from e(2) e'(2) have eq: "cmp (key e) (key e') = 0" using sym trans by blast
  from uniq have d: "distinct (map key es)"
    and p: "\<forall>a \<in> set (map key es). \<forall>b \<in> set (map key es). a \<noteq> b \<longrightarrow> cmp a b \<noteq> 0"
    unfolding keys_unique_alt[OF ok] by blast+
  from p e(1) e'(1) eq have "key e = key e'" by auto
  moreover from d have "inj_on key (set es)" by (simp add: distinct_map)
  ultimately show ?thesis using e(1) e'(1) by (auto dest: inj_onD)
qed

lemma entries_distinct:
  assumes "keys_unique cmp (map key es)" "equality_ok cmp"
  shows "distinct es"
  using assms keys_unique_alt[OF assms(2), of "map key es"] by (simp add: distinct_map)

lemma lookup_Some_iff:
  assumes inv: "map_inv m" and ok: "equality_ok (compare m)"
  shows "lookup m k = Some x \<longleftrightarrow>
    (\<exists>e \<in> set (entries m). compare m (key e) k = 0 \<and> value e = x)"
proof
  assume "lookup m k = Some x"
  then obtain e where "find (\<lambda>e. compare m (key e) k = 0) (entries m) = Some e" "value e = x"
    by (auto simp: lookup_def)
  then show "\<exists>e \<in> set (entries m). compare m (key e) k = 0 \<and> value e = x"
    by (auto simp: find_Some_iff)
next
  assume "\<exists>e \<in> set (entries m). compare m (key e) k = 0 \<and> value e = x"
  then obtain e where e: "e \<in> set (entries m)" "compare m (key e) k = 0" "value e = x" by blast
  then have "find (\<lambda>e. compare m (key e) k = 0) (entries m) \<noteq> None"
    by (auto simp: find_None_iff)
  then obtain e' where f: "find (\<lambda>e. compare m (key e) k = 0) (entries m) = Some e'" by blast
  then have e': "e' \<in> set (entries m)" "compare m (key e') k = 0"
    by (auto simp: find_Some_iff)
  from inv have "keys_unique (compare m) (map key (entries m))" by (simp add: map_inv_def)
  from same_holder[OF this ok e(1,2) e'] f e(3) show "lookup m k = Some x"
    by (simp add: lookup_def)
qed

lemma holders_at_most_one:
  assumes inv: "map_inv m" and ok: "equality_ok (compare m)"
  shows "length (holders m k) \<le> 1"
proof (cases "holders m k")
  case Nil
  then show ?thesis by simp
next
  case (Cons e es)
  from inv have uniq: "keys_unique (compare m) (map key (entries m))" by (simp add: map_inv_def)
  have "e \<in> set (holders m k)" using Cons by simp
  then have e: "e \<in> set (entries m)" "compare m (key e) k = 0" by (simp_all add: holders_def)
  have "set (holders m k) \<subseteq> {e}"
    using same_holder[OF uniq ok e] by (auto simp: holders_def)
  moreover have "distinct (holders m k)"
    using entries_distinct[OF uniq ok] by (simp add: holders_def)
  ultimately have "length (holders m k) \<le> card {e}"
    by (metis distinct_card card_mono finite.emptyI finite.insertI)
  then show ?thesis by simp
qed

lemma find_first_filtered:
  "find P es = (case filter P es of [] \<Rightarrow> None | e # _ \<Rightarrow> Some e)"
  by (induction es) auto

lemma holders_lookup:
  "lookup m k = map_option value (case holders m k of [] \<Rightarrow> None | e # _ \<Rightarrow> Some e)"
  by (simp add: lookup_def holders_def find_first_filtered)

text \<open>\<open>mapGet\<close> returns the value that \<open>lookup\<close> finds, and \<open>NULL\<close> when there is none.\<close>

lemma mapGet_lookup:
  assumes inv: "map_inv m" and ok: "equality_ok (compare m)"
    and hc: "hash_consistent (hash m) (compare m)"
  shows "mapGet (Some m) (Some k) = (case lookup m k of None \<Rightarrow> None | Some x \<Rightarrow> x)"
proof -
  let ?chain = "buckets m ! (hash m k mod capacity m)"
  from inv have binv: "bucket_inv m" by (simp add: map_inv_def)
  show ?thesis
  proof (cases "\<exists>e \<in> set ?chain. compare m (key e) k = 0")
    case True
    then obtain pre e post where d: "?chain = pre @ e # post"
      "\<forall>x \<in> set pre. compare m (key x) k \<noteq> 0" "compare m (key e) k = 0"
      by (rule first_match)
    have "e \<in> set ?chain" using d(1) by simp
    with index_in_range[OF binv, of k] have "e \<in> set (entries m)"
      unfolding in_entries_iff by blast
    with d(3) have "lookup m k = Some (value e)"
      unfolding lookup_Some_iff[OF inv ok] by blast
    with mapGet_present[OF d] show ?thesis by simp
  next
    case False
    then have no: "\<forall>e \<in> set ?chain. compare m (key e) k \<noteq> 0" by blast
    with present_iff_in_chain[OF binv hc, of k] have "lookup m k = None"
      unfolding lookup_None_iff by blast
    with mapGet_absent[OF no] show ?thesis by simp
  qed
qed

section \<open>Each operation on the abstract content\<close>

lemma option_eq_by_Some:
  "(\<And>x. a = Some x \<longleftrightarrow> b = Some x) \<Longrightarrow> a = b"
  by (cases a; cases b) auto

lemma mapPut_step:
  assumes inv: "map_inv m" and ok: "equality_ok (compare m)"
    and hc: "hash_consistent (hash m) (compare m)"
    and put: "mapPut (Some m) (Some k) v malloc_ok w = (True, mp', w')"
  shows "\<exists>m'. mp' = Some m' \<and> map_inv m' \<and> compare m' = compare m \<and> hash m' = hash m \<and>
    capacity m' = capacity m \<and>
    (\<forall>k'. lookup m' k' = (if compare m k k' = 0 then Some v else lookup m k')) \<and>
    size' m' = (if lookup m k = None then size' m + 1 else size' m)"
proof -
  let ?i = "hash m k mod capacity m"
  let ?bs = "buckets m"
  let ?chain = "?bs ! ?i"
  from inv have binv: "bucket_inv m" by (simp add: map_inv_def)
  have i: "?i < length ?bs" using binv by (rule index_in_range)
  from ok have sym: "\<And>a b. compare m a b = 0 \<Longrightarrow> compare m b a = 0"
    and trans: "\<And>a b c. compare m a b = 0 \<Longrightarrow> compare m b c = 0 \<Longrightarrow> compare m a c = 0"
    unfolding equality_ok_def by blast+
  show ?thesis
  proof (cases "\<exists>e \<in> set ?chain. compare m (key e) k = 0")
    case False
    then have no: "\<forall>e \<in> set ?chain. compare m (key e) k \<noteq> 0" by blast
    let ?new = "\<lparr>key = k, value = v\<rparr>"
    let ?m' = "m\<lparr>buckets := ?bs[?i := ?new # ?chain], size' := size' m + 1\<rparr>"
    from put mapPut_new[OF no, of v malloc_ok w] have mp': "mp' = Some ?m'"
      by (auto split: if_splits)
    have inv': "map_inv ?m'" using inv ok hc no by (rule map_inv_put_new)
    have ok': "equality_ok (compare ?m')" using ok by simp
    have S: "set (entries ?m') = insert ?new (set (entries m))"
      using concat_upd[OF i, of "?new # ?chain"] concat_split[OF i]
      by (simp add: entries_def)
    have none: "lookup m k = None"
      unfolding lookup_None_iff using no_holder_anywhere[OF binv hc ok no] by blast
    have look: "lookup ?m' k' = (if compare m k k' = 0 then Some v else lookup m k')" for k'
    proof (cases "compare m k k' = 0")
      case True
      then have "lookup ?m' k' = Some v"
        unfolding lookup_Some_iff[OF inv' ok'] S by (intro bexI[of _ ?new]) simp_all
      with True show ?thesis by simp
    next
      case False
      have "lookup ?m' k' = Some x \<longleftrightarrow> lookup m k' = Some x" for x
        unfolding lookup_Some_iff[OF inv' ok'] lookup_Some_iff[OF inv ok] S
        using False by auto
      then have "lookup ?m' k' = lookup m k'" by (rule option_eq_by_Some)
      with False show ?thesis by simp
    qed
    from mp' inv' look none show ?thesis by (intro exI[of _ ?m']) simp
  next
    case True
    then obtain pre e post where d: "?chain = pre @ e # post"
      "\<forall>x \<in> set pre. compare m (key x) k \<noteq> 0" "compare m (key e) k = 0"
      by (rule first_match)
    let ?e' = "e\<lparr>value := v\<rparr>"
    let ?m' = "m\<lparr>buckets := ?bs[?i := pre @ ?e' # post]\<rparr>"
    from put mapPut_update[OF d, of v malloc_ok w] have mp': "mp' = Some ?m'" by simp
    have inv': "map_inv ?m'" using inv d(1) by (rule map_inv_put_update)
    have ok': "equality_ok (compare ?m')" using ok by simp
    have S: "insert e (set (entries ?m')) = insert ?e' (set (entries m))"
      using concat_upd[OF i, of "pre @ ?e' # post"] concat_split[OF i] d(1)
      by (auto simp: entries_def)
    have e_in: "e \<in> set (entries m)" using concat_split[OF i] d(1) by (simp add: entries_def)
    have e'_in: "?e' \<in> set (entries ?m')"
      using concat_upd[OF i, of "pre @ ?e' # post"] by simp
    have some: "lookup m k \<noteq> None"
      unfolding lookup_None_iff using e_in d(3) by blast
    have look: "lookup ?m' k' = (if compare m k k' = 0 then Some v else lookup m k')" for k'
    proof (cases "compare m k k' = 0")
      case True
      with d(3) have "compare m (key ?e') k' = 0" using trans by simp
      with e'_in have "lookup ?m' k' = Some v"
        unfolding lookup_Some_iff[OF inv' ok'] by (intro bexI[of _ ?e']) simp_all
      with True show ?thesis by simp
    next
      case False
      have ne: "compare m (key e) k' \<noteq> 0"
      proof
        assume "compare m (key e) k' = 0"
        with sym[OF d(3)] have "compare m k k' = 0" by (rule trans)
        with False show False by simp
      qed
      have "(\<exists>x \<in> set (entries ?m'). compare m (key x) k' = 0 \<and> value x = y) \<longleftrightarrow>
            (\<exists>x \<in> set (entries m). compare m (key x) k' = 0 \<and> value x = y)" for y
      proof -
        have "x \<in> set (entries ?m') \<longleftrightarrow> x \<in> set (entries m)"
          if "compare m (key x) k' = 0" for x
        proof -
          from that ne have "x \<noteq> e" "x \<noteq> ?e'" by auto
          with S show ?thesis by blast
        qed
        then show ?thesis by blast
      qed
      then have "lookup ?m' k' = Some x \<longleftrightarrow> lookup m k' = Some x" for x
        unfolding lookup_Some_iff[OF inv' ok'] lookup_Some_iff[OF inv ok] by simp
      then have "lookup ?m' k' = lookup m k'" by (rule option_eq_by_Some)
      with False show ?thesis by simp
    qed
    from mp' inv' look some show ?thesis by (intro exI[of _ ?m']) simp
  qed
qed

lemma mapRemove_step:
  assumes inv: "map_inv m" and ok: "equality_ok (compare m)"
    and hc: "hash_consistent (hash m) (compare m)"
    and rem: "mapRemove (Some m) (Some k) w = (r, mp', w')"
  shows "r = (lookup m k \<noteq> None) \<and>
    (\<exists>m'. mp' = Some m' \<and> map_inv m' \<and> compare m' = compare m \<and> hash m' = hash m \<and>
      capacity m' = capacity m \<and>
      (\<forall>k'. lookup m' k' = (if compare m k k' = 0 then None else lookup m k')) \<and>
      size' m' = (if r then size' m - 1 else size' m))"
proof -
  let ?i = "hash m k mod capacity m"
  let ?bs = "buckets m"
  let ?chain = "?bs ! ?i"
  from inv have binv: "bucket_inv m"
    and uniq: "keys_unique (compare m) (map key (entries m))" by (simp_all add: map_inv_def)
  have i: "?i < length ?bs" using binv by (rule index_in_range)
  from ok have sym: "\<And>a b. compare m a b = 0 \<Longrightarrow> compare m b a = 0"
    and trans: "\<And>a b c. compare m a b = 0 \<Longrightarrow> compare m b c = 0 \<Longrightarrow> compare m a c = 0"
    unfolding equality_ok_def by blast+
  have equal_keys: "compare m (key x) k = 0" if "compare m k k' = 0" "compare m (key x) k' = 0"
    for x k'
    using that sym trans by blast
  show ?thesis
  proof (cases "\<exists>e \<in> set ?chain. compare m (key e) k = 0")
    case False
    then have no: "\<forall>e \<in> set ?chain. compare m (key e) k \<noteq> 0" by blast
    from rem mapRemove_absent[OF no, of w] have res: "r = False" "mp' = Some m" by simp_all
    have nowhere: "\<forall>e \<in> set (entries m). compare m (key e) k \<noteq> 0"
      using no_holder_anywhere[OF binv hc ok no] by blast
    then have none: "lookup m k = None" unfolding lookup_None_iff .
    have "lookup m k' = None" if "compare m k k' = 0" for k'
      unfolding lookup_None_iff using nowhere equal_keys[OF that] by blast
    with res inv none show ?thesis by simp
  next
    case True
    then obtain pre e post where d: "?chain = pre @ e # post"
      "\<forall>x \<in> set pre. compare m (key x) k \<noteq> 0" "compare m (key e) k = 0"
      by (rule first_match)
    let ?m' = "m\<lparr>buckets := ?bs[?i := pre @ post], size' := size' m - 1\<rparr>"
    from rem mapRemove_present[OF d, of w] have res: "r = True" "mp' = Some ?m'" by simp_all
    have inv': "map_inv ?m'" using inv d(1) by (rule map_inv_remove)
    have ok': "equality_ok (compare ?m')" using ok by simp
    have old: "entries m = concat (take ?i ?bs) @ (pre @ e # post) @ concat (drop (Suc ?i) ?bs)"
      unfolding entries_def d(1)[symmetric] using i by (rule concat_split)
    have new: "entries ?m' = concat (take ?i ?bs) @ (pre @ post) @ concat (drop (Suc ?i) ?bs)"
      using concat_upd[OF i, of "pre @ post"] by simp
    have "distinct (entries m)" using uniq ok by (rule entries_distinct)
    then have e_out: "e \<notin> set (entries ?m')" unfolding old new by auto
    have S: "set (entries m) = insert e (set (entries ?m'))" unfolding old new by auto
    have e_in: "e \<in> set (entries m)" unfolding S by simp
    have some: "lookup m k \<noteq> None" unfolding lookup_None_iff using e_in d(3) by blast
    have look: "lookup ?m' k' = (if compare m k k' = 0 then None else lookup m k')" for k'
    proof (cases "compare m k k' = 0")
      case True
      have "compare m (key x) k' \<noteq> 0" if x: "x \<in> set (entries ?m')" for x
      proof
        assume "compare m (key x) k' = 0"
        then have "compare m (key x) k = 0" using True by (intro equal_keys)
        moreover have "x \<in> set (entries m)" using x unfolding S by simp
        ultimately have "x = e" using same_holder[OF uniq ok _ _ e_in d(3)] by blast
        with x e_out show False by simp
      qed
      then have "lookup ?m' k' = None" unfolding lookup_None_iff by simp
      with True show ?thesis by simp
    next
      case False
      have ne: "compare m (key e) k' \<noteq> 0"
      proof
        assume "compare m (key e) k' = 0"
        with sym[OF d(3)] have "compare m k k' = 0" by (rule trans)
        with False show False by simp
      qed
      have "lookup ?m' k' = Some x \<longleftrightarrow> lookup m k' = Some x" for x
        unfolding lookup_Some_iff[OF inv' ok'] lookup_Some_iff[OF inv ok] S
        using ne by auto
      then have "lookup ?m' k' = lookup m k'" by (rule option_eq_by_Some)
      with False show ?thesis by simp
    qed
    from res inv' look some show ?thesis by simp
  qed
qed

lemma placed_replicate: "placed h (replicate n [])"
  by (simp add: placed_iff)

lemma mapResize_live:
  assumes len: "length (buckets m) = capacity m" and n: "0 < n" "size' m \<le> n"
  shows "mapResize (Some m) n True =
    (True, Some (m\<lparr>buckets := fold (mapResize_chain (hash m) n) (buckets m) (replicate n []),
                   capacity := n\<rparr>))"
  using n fold_index[of "mapResize_chain (hash m) n" "buckets m" "replicate n []"] len
  by (simp add: mapResize_def)

lemma mapResize_success:
  "mapResize (Some m) n calloc_ok = (True, mp') \<longleftrightarrow>
   0 < n \<and> size' m \<le> n \<and> calloc_ok \<and> mp' = snd (mapResize (Some m) n True)"
  by (auto simp: mapResize_def)

lemma mapResize_step:
  assumes inv: "map_inv m" and ok: "equality_ok (compare m)"
    and res: "mapResize (Some m) n calloc_ok = (True, mp')"
  shows "\<exists>m'. mp' = Some m' \<and> map_inv m' \<and> compare m' = compare m \<and> hash m' = hash m \<and>
    capacity m' = n \<and> size' m' = size' m \<and> mset (entries m') = mset (entries m) \<and>
    (\<forall>k. lookup m' k = lookup m k)"
proof -
  let ?nb = "fold (mapResize_chain (hash m) n) (buckets m) (replicate n [])"
  let ?m' = "m\<lparr>buckets := ?nb, capacity := n\<rparr>"
  from inv have binv: "bucket_inv m"
    and uniq: "keys_unique (compare m) (map key (entries m))"
    and sz: "size' m = length (entries m)" by (simp_all add: map_inv_def)
  from binv have len: "length (buckets m) = capacity m" by (simp add: bucket_inv_iff)
  from res have n: "0 < n" "size' m \<le> n" and mp': "mp' = snd (mapResize (Some m) n True)"
    unfolding mapResize_success by simp_all
  from mp' mapResize_live[OF len n] have mp: "mp' = Some ?m'" by simp
  from mapResize_fold[of "replicate n []" "hash m" "buckets m"] n(1)
  have f: "length ?nb = n" "mset (concat ?nb) = mset (concat (buckets m))" "placed (hash m) ?nb"
    by (simp_all add: placed_replicate)
  have ms: "mset (entries ?m') = mset (entries m)" using f(2) by (simp add: entries_def)
  have 1: "bucket_inv ?m'" using f(1,3) n(1) by (simp add: bucket_inv_iff placed_iff)
  have "mset (map key (entries ?m')) = mset (map key (entries m))"
    using ms by (metis mset_map)
  from keys_unique_mset[OF ok this] uniq
  have 2: "keys_unique (compare ?m') (map key (entries ?m'))" by simp
  have 3: "size' ?m' = length (entries ?m')" using sz mset_eq_length[OF ms] by simp
  from 1 2 3 have inv': "map_inv ?m'" unfolding map_inv_def by blast
  have ok': "equality_ok (compare ?m')" using ok by simp
  have S: "set (entries ?m') = set (entries m)" using ms by (rule mset_eq_setD)
  have "lookup ?m' k = Some x \<longleftrightarrow> lookup m k = Some x" for k x
    unfolding lookup_Some_iff[OF inv' ok'] lookup_Some_iff[OF inv ok] S by simp
  then have "lookup ?m' k = lookup m k" for k by (rule option_eq_by_Some)
  with mp inv' ms show ?thesis by (intro exI[of _ ?m']) simp
qed

lemma map_inv_empty:
  assumes "0 < n"
  shows "map_inv (m\<lparr>buckets := replicate n [], capacity := n, size' := 0\<rparr>)"
  using assms by (simp add: map_inv_def bucket_inv_iff entries_def)

lemma mapCreate_live:
  assumes "mapCreate n h c fk fv malloc_ok calloc_ok = Some m"
  shows "map_inv m \<and> size' m = 0 \<and> entries m = [] \<and> capacity m = n \<and> hash m = h \<and> compare m = c"
  using assms by (auto simp: mapCreate_def map_inv_def bucket_inv_iff entries_def split: if_splits)

section \<open>The instantiation meets the contract\<close>

lemma natCompare_ok: "equality_ok natCompare"
  by (simp add: equality_ok_def natCompare_def)

lemma natHash_consistent: "hash_consistent natHash natCompare"
  by (simp add: hash_consistent_def natCompare_def)

lemma fresh_table_created:
  "mapCreate 2 natHash natCompare (Some logKey) (Some logValue) True True = Some fresh_table"
  by (simp add: mapCreate_def fresh_table_def numeral_2_eq_2)

lemma fresh_table_inv: "map_inv fresh_table"
  using mapCreate_live[OF fresh_table_created] by simp

lemma demo_table_inv: "map_inv demo_table"
  by (simp add: map_inv_def bucket_inv_iff demo_table_def entries_def natCompare_def natHash_def
      All_less_Suc)

lemma demo_table_reached:
  "mapPut_all (Some fresh_table)
     [(Some 1, Some ''one'', True), (Some 3, Some ''three'', True), (Some 2, Some ''two'', True)]
     []
   = ([True, True, True], Some demo_table, [])"
  by (simp add: fresh_table_def demo_table_def mapPut_def natHash_def natCompare_def Let_def)

section \<open>Sequences of \<open>mapPut\<close> calls\<close>

text \<open>Where the comparison is 0 exactly for identical keys, the count is the usual one.\<close>

lemma distinct_keys_exact:
  assumes "\<And>a b. cmp a b = 0 \<longleftrightarrow> a = b"
  shows "distinct_keys cmp ks = card (set ks)"
  by (induction ks) (auto simp: assms card_insert_if)

lemma distinct_keys_split:
  assumes ok: "equality_ok cmp"
  shows "distinct_keys cmp ks =
    (if \<exists>x \<in> set ks. cmp x k = 0 then 1 else 0) +
    distinct_keys cmp (filter (\<lambda>x. cmp k x \<noteq> 0) ks)"
proof (induction ks)
  case Nil
  then show ?case by simp
next
  case (Cons a ks)
  from ok have sym: "\<And>a b. cmp a b = 0 \<Longrightarrow> cmp b a = 0"
    and trans: "\<And>a b c. cmp a b = 0 \<Longrightarrow> cmp b c = 0 \<Longrightarrow> cmp a c = 0"
    unfolding equality_ok_def by blast+
  show ?case
  proof (cases "cmp k a = 0")
    case True
    have "(\<exists>x \<in> set ks. cmp x a = 0) \<longleftrightarrow> (\<exists>x \<in> set ks. cmp x k = 0)"
      using True sym trans by blast
    moreover have "cmp a k = 0" using True by (rule sym)
    ultimately show ?thesis using True Cons.IH by simp
  next
    case False
    have "cmp k x \<noteq> 0" if "cmp x a = 0" for x
      using that False trans by blast
    then have "(\<exists>x \<in> set ks. cmp x a = 0) \<longleftrightarrow>
          (\<exists>x \<in> set (filter (\<lambda>x. cmp k x \<noteq> 0) ks). cmp x a = 0)"
      by (simp (no_asm_simp)) blast
    moreover have "cmp a k \<noteq> 0" using False sym by blast
    ultimately show ?thesis using False Cons.IH by simp
  qed
qed

lemma lookup_None_equal:
  assumes ok: "equality_ok (compare m)" and eq: "compare m k k' = 0"
  shows "lookup m k = None \<longleftrightarrow> lookup m k' = None"
proof -
  from ok have sym: "\<And>a b. compare m a b = 0 \<Longrightarrow> compare m b a = 0"
    and trans: "\<And>a b c. compare m a b = 0 \<Longrightarrow> compare m b c = 0 \<Longrightarrow> compare m a c = 0"
    unfolding equality_ok_def by blast+
  have "compare m x k = 0 \<longleftrightarrow> compare m x k' = 0" for x
    using eq sym trans by blast
  then show ?thesis unfolding lookup_None_iff by simp
qed

lemma succeeded_failed [simp]:
  "succeeded ((kp, v, malloc_ok) # calls) (False # rs) = succeeded calls rs"
  by (cases kp) simp_all

lemma mapPut_all_general:
  assumes "map_inv m" and "equality_ok (compare m)" and "hash_consistent (hash m) (compare m)"
    and "mapPut_all (Some m) calls w = (rs, mp', w')"
  shows "\<exists>m'. mp' = Some m' \<and> map_inv m' \<and> compare m' = compare m \<and> hash m' = hash m \<and>
    capacity m' = capacity m \<and>
    (\<forall>k. lookup m' k =
       (case last_put (compare m) (succeeded calls rs) k of
          Some x \<Rightarrow> Some x | None \<Rightarrow> lookup m k)) \<and>
    size' m' = size' m +
      distinct_keys (compare m)
        (filter (\<lambda>k. lookup m k = None) (map fst (succeeded calls rs)))"
  using assms
proof (induction calls arbitrary: m w rs)
  case Nil
  then show ?case by auto
next
  case (Cons call calls)
  obtain kp v malloc_ok where call: "call = (kp, v, malloc_ok)" by (cases call)
  obtain r mp1 w1 where p1: "mapPut (Some m) kp v malloc_ok w = (r, mp1, w1)"
    by (cases "mapPut (Some m) kp v malloc_ok w")
  obtain rs' mp2 w2 where p2: "mapPut_all mp1 calls w1 = (rs', mp2, w2)"
    by (cases "mapPut_all mp1 calls w1")
  from Cons.prems(4) call p1 p2 have rs: "rs = r # rs'" and mp2: "mp2 = mp'" and "w2 = w'"
    by simp_all
  with p2 have p2': "mapPut_all mp1 calls w1 = (rs', mp', w')" by simp
  let ?cmp = "compare m"
  show ?case
  proof (cases r)
    case False
    with p1 have "mapPut (Some m) kp v malloc_ok w = (False, mp1, w1)" by simp
    from mapPut_failed[OF this] have "mp1 = Some m" by simp
    from Cons.IH[OF Cons.prems(1-3) p2'[unfolded this]] False show ?thesis
      by (simp add: rs call)
  next
    case True
    with p1 obtain k where kp: "kp = Some k" by (cases kp) (auto simp: mapPut_def)
    from p1 True kp have "mapPut (Some m) (Some k) v malloc_ok w = (True, mp1, w1)" by simp
    from mapPut_step[OF Cons.prems(1-3) this]
    obtain m1 where m1: "mp1 = Some m1" "map_inv m1" "compare m1 = ?cmp" "hash m1 = hash m"
      "capacity m1 = capacity m"
      and look1: "\<And>k'. lookup m1 k' = (if ?cmp k k' = 0 then Some v else lookup m k')"
      and size1: "size' m1 = (if lookup m k = None then size' m + 1 else size' m)"
      by blast
    have ok1: "equality_ok (compare m1)" and hc1: "hash_consistent (hash m1) (compare m1)"
      using Cons.prems(2,3) m1 by simp_all
    let ?puts = "succeeded calls rs'"
    have puts: "succeeded (call # calls) rs = (k, v) # ?puts"
      by (simp add: call kp rs True)
    from Cons.IH[OF m1(2) ok1 hc1 p2'[unfolded m1(1)]]
    obtain m' where m': "mp' = Some m'" "map_inv m'" "compare m' = ?cmp" "hash m' = hash m"
      "capacity m' = capacity m"
      and look': "\<And>x. lookup m' x =
        (case last_put ?cmp ?puts x of Some y \<Rightarrow> Some y | None \<Rightarrow> lookup m1 x)"
      and size': "size' m' = size' m1 +
        distinct_keys ?cmp (filter (\<lambda>x. lookup m1 x = None) (map fst ?puts))"
      using m1 by auto
    have look: "lookup m' x =
        (case last_put ?cmp (succeeded (call # calls) rs) x of
           Some y \<Rightarrow> Some y | None \<Rightarrow> lookup m x)" for x
      unfolding look' look1 puts by (simp split: option.splits)
    let ?L = "filter (\<lambda>x. lookup m x = None) (map fst ?puts)"
    have filt: "filter (\<lambda>x. lookup m1 x = None) (map fst ?puts) = filter (\<lambda>x. ?cmp k x \<noteq> 0) ?L"
      unfolding look1 by (auto intro: filter_cong)
    have size: "size' m' = size' m +
        distinct_keys ?cmp (filter (\<lambda>x. lookup m x = None) (map fst (succeeded (call # calls) rs)))"
    proof (cases "lookup m k = None")
      case True
      have "distinct_keys ?cmp (k # ?L) = Suc (distinct_keys ?cmp (filter (\<lambda>x. ?cmp k x \<noteq> 0) ?L))"
        using distinct_keys_split[OF Cons.prems(2), of ?L k] by simp
      with True size' size1 filt show ?thesis by (simp add: puts)
    next
      case False
      have "filter (\<lambda>x. ?cmp k x \<noteq> 0) ?L = ?L"
      proof (rule filter_True, rule ballI)
        fix x assume "x \<in> set ?L"
        then have "lookup m x = None" by simp
        with False lookup_None_equal[OF Cons.prems(2), of k x] show "?cmp k x \<noteq> 0" by auto
      qed
      with False size' size1 filt show ?thesis by (simp add: puts)
    qed
    from m' look size show ?thesis by (intro exI[of _ m']) simp
  qed
qed

lemma fresh_table_contract:
  "equality_ok (compare fresh_table)" "hash_consistent (hash fresh_table) (compare fresh_table)"
  by (simp_all add: fresh_table_def natCompare_ok natHash_consistent)

lemma demo_table_contract:
  "equality_ok (compare demo_table)" "hash_consistent (hash demo_table) (compare demo_table)"
  by (simp_all add: demo_table_def natCompare_ok natHash_consistent)

lemma holders_Nil_iff: "holders m k = [] \<longleftrightarrow> lookup m k = None"
  by (simp add: holders_lookup split: list.splits)

section \<open>The bucket invariant under each operation\<close>

lemma bucket_inv_put:
  assumes inv: "bucket_inv m" and put: "mapPut (Some m) kp v malloc_ok w = (r, Some m', w')"
  shows "bucket_inv m'"
proof (cases kp)
  case None
  with put inv show ?thesis by (simp add: mapPut_def)
next
  case (Some k)
  let ?i = "hash m k mod capacity m"
  have i: "?i < length (buckets m)" using inv by (rule index_in_range)
  have here: "\<forall>e \<in> set (buckets m ! ?i). hash m (key e) mod capacity m = ?i"
    using inv i by (simp add: bucket_inv_iff)
  show ?thesis
  proof (cases "\<exists>e \<in> set (buckets m ! ?i). compare m (key e) k = 0")
    case False
    then have no: "\<forall>e \<in> set (buckets m ! ?i). compare m (key e) k \<noteq> 0" by blast
    have "bucket_inv (m\<lparr>buckets := (buckets m)[?i := \<lparr>key = k, value = v\<rparr> # buckets m ! ?i]\<rparr>)"
      using inv i by (rule bucket_inv_upd) (use here in simp)
    with put mapPut_new[OF no, of v malloc_ok w] inv Some show ?thesis
      by (auto split: if_splits)
  next
    case True
    then obtain pre e post where d: "buckets m ! ?i = pre @ e # post"
      "\<forall>x \<in> set pre. compare m (key x) k \<noteq> 0" "compare m (key e) k = 0"
      by (rule first_match)
    have "bucket_inv (m\<lparr>buckets := (buckets m)[?i := pre @ e\<lparr>value := v\<rparr> # post]\<rparr>)"
      using inv i by (rule bucket_inv_upd) (use here d(1) in auto)
    with put mapPut_update[OF d, of v malloc_ok w] Some show ?thesis by simp
  qed
qed

lemma bucket_inv_remove:
  assumes inv: "bucket_inv m" and rem: "mapRemove (Some m) kp w = (r, Some m', w')"
  shows "bucket_inv m'"
proof (cases kp)
  case None
  with rem inv show ?thesis by (simp add: mapRemove_def)
next
  case (Some k)
  let ?i = "hash m k mod capacity m"
  have i: "?i < length (buckets m)" using inv by (rule index_in_range)
  have here: "\<forall>e \<in> set (buckets m ! ?i). hash m (key e) mod capacity m = ?i"
    using inv i by (simp add: bucket_inv_iff)
  show ?thesis
  proof (cases "\<exists>e \<in> set (buckets m ! ?i). compare m (key e) k = 0")
    case False
    then have no: "\<forall>e \<in> set (buckets m ! ?i). compare m (key e) k \<noteq> 0" by blast
    with rem mapRemove_absent[OF no, of w] inv Some show ?thesis by simp
  next
    case True
    then obtain pre e post where d: "buckets m ! ?i = pre @ e # post"
      "\<forall>x \<in> set pre. compare m (key x) k \<noteq> 0" "compare m (key e) k = 0"
      by (rule first_match)
    have "bucket_inv (m\<lparr>buckets := (buckets m)[?i := pre @ post]\<rparr>)"
      using inv i by (rule bucket_inv_upd) (use here d(1) in auto)
    with rem mapRemove_present[OF d, of w] Some show ?thesis by auto
  qed
qed

lemma bucket_inv_clear:
  assumes inv: "bucket_inv m" and clr: "mapClear (Some m) w = (Some m', w')"
  shows "bucket_inv m'"
proof -
  from inv have len: "length (buckets m) = capacity m" and cap: "0 < capacity m"
    by (simp_all add: bucket_inv_iff)
  from clr mapClear_live[OF len, of w]
  have "m' = m\<lparr>buckets := replicate (capacity m) [], size' := 0\<rparr>" by simp
  with cap show ?thesis by (simp add: bucket_inv_iff)
qed

lemma bucket_inv_resize:
  assumes inv: "bucket_inv m" and res: "mapResize (Some m) n calloc_ok = (r, Some m')"
  shows "bucket_inv m'"
proof (cases r)
  case False
  with res have "m' = m" by (auto simp: mapResize_def split: if_splits)
  with inv show ?thesis by simp
next
  case True
  let ?nb = "fold (mapResize_chain (hash m) n) (buckets m) (replicate n [])"
  from inv have len: "length (buckets m) = capacity m" by (simp add: bucket_inv_iff)
  from res True have "mapResize (Some m) n calloc_ok = (True, Some m')" by simp
  then have n: "0 < n" "size' m \<le> n" and mp': "Some m' = snd (mapResize (Some m) n True)"
    unfolding mapResize_success by simp_all
  from mp' mapResize_live[OF len n] have m': "m' = m\<lparr>buckets := ?nb, capacity := n\<rparr>" by simp
  from mapResize_fold[of "replicate n []" "hash m" "buckets m"] n(1)
  have "length ?nb = n" "placed (hash m) ?nb" by (simp_all add: placed_replicate)
  with n(1) show ?thesis unfolding m' by (simp add: bucket_inv_iff placed_iff)
qed

section \<open>Reachable tables\<close>

text \<open>
  Every operation returns a table with the injected functions it was given. When these
  meet their contract, every table a program can reach satisfies \<open>map_inv\<close>
  (\<open>reachable_map_inv\<close> below); the theorems on live tables assume \<open>map_inv\<close>, or the
  part of it they need.
\<close>

lemma mapPut_live:
  "\<exists>m'. fst (snd (mapPut (Some m) kp v malloc_ok w)) = Some m' \<and>
     compare m' = compare m \<and> hash m' = hash m"
  by (cases kp) (auto simp: mapPut_def Let_def split: option.splits)

lemma mapRemove_live:
  "\<exists>m'. fst (snd (mapRemove (Some m) kp w)) = Some m' \<and>
     compare m' = compare m \<and> hash m' = hash m"
  by (cases kp) (auto simp: mapRemove_def Let_def split: option.splits)

lemma mapClear_fields:
  "\<exists>m'. fst (mapClear (Some m) w) = Some m' \<and> compare m' = compare m \<and> hash m' = hash m"
  by (auto simp: mapClear_def split: prod.splits)

lemma mapResize_fields:
  "\<exists>m'. snd (mapResize (Some m) n calloc_ok) = Some m' \<and>
     compare m' = compare m \<and> hash m' = hash m"
  by (auto simp: mapResize_def)

lemma reachable_mapPut_all:
  assumes "reachable m" and "mapPut_all (Some m) calls w = (rs, Some m', w')"
  shows "reachable m'"
  using assms
proof (induction calls arbitrary: m w rs w')
  case Nil
  then show ?case by simp
next
  case (Cons call calls)
  obtain kp v malloc_ok where call: "call = (kp, v, malloc_ok)" by (cases call)
  obtain r mp1 w1 where p1: "mapPut (Some m) kp v malloc_ok w = (r, mp1, w1)"
    by (cases "mapPut (Some m) kp v malloc_ok w")
  with mapPut_live[of m kp v malloc_ok w] obtain m1 where m1: "mp1 = Some m1" by auto
  obtain rs' mp2 w2 where p2: "mapPut_all (Some m1) calls w1 = (rs', mp2, w2)"
    by (cases "mapPut_all (Some m1) calls w1")
  from Cons.prems(2) call p1 p2 m1 have "mp2 = Some m'" by simp
  with p2 have p2': "mapPut_all (Some m1) calls w1 = (rs', Some m', w2)" by simp
  have "reachable m1" using Cons.prems(1) p1[unfolded m1] by (rule reachable.after_put)
  from Cons.IH[OF this p2'] show ?case .
qed

lemma reachable_map_inv:
  assumes "reachable m" and "equality_ok (compare m)" and "hash_consistent (hash m) (compare m)"
  shows "map_inv m"
  using assms
proof (induction rule: reachable.induct)
  case (created n h c fk fv malloc_ok calloc_ok m)
  from mapCreate_live[OF created.hyps] show ?case by simp
next
  case (after_put m kp v malloc_ok w r m' w')
  from mapPut_live[of m kp v malloc_ok w] after_put.hyps(2)
  have f: "compare m' = compare m" "hash m' = hash m" by auto
  with after_put have inv: "map_inv m" and ok: "equality_ok (compare m)"
    and hc: "hash_consistent (hash m) (compare m)" by simp_all
  show ?case
  proof (cases r)
    case False
    with after_put.hyps(2) have "mapPut (Some m) kp v malloc_ok w = (False, Some m', w')" by simp
    from mapPut_failed[OF this] have "m' = m" by simp
    with inv show ?thesis by simp
  next
    case True
    with after_put.hyps(2) obtain k where "kp = Some k"
      by (cases kp) (auto simp: mapPut_def)
    with after_put.hyps(2) True mapPut_step[OF inv ok hc, of k v malloc_ok w "Some m'" w']
    show ?thesis by auto
  qed
next
  case (after_remove m kp w r m' w')
  from mapRemove_live[of m kp w] after_remove.hyps(2)
  have f: "compare m' = compare m" "hash m' = hash m" by auto
  with after_remove have inv: "map_inv m" and ok: "equality_ok (compare m)"
    and hc: "hash_consistent (hash m) (compare m)" by simp_all
  show ?case
  proof (cases kp)
    case None
    with after_remove.hyps(2) inv show ?thesis by (simp add: mapRemove_def)
  next
    case (Some k)
    with after_remove.hyps(2) mapRemove_step[OF inv ok hc, of k w r "Some m'" w']
    show ?thesis by auto
  qed
next
  case (after_clear m w m' w')
  from mapClear_fields[of m w] after_clear.hyps(2)
  have f: "compare m' = compare m" "hash m' = hash m" by auto
  with after_clear have inv: "map_inv m" by simp
  then have "bucket_inv m" by (simp add: map_inv_def)
  then have len: "length (buckets m) = capacity m" and cap: "0 < capacity m"
    by (simp_all add: bucket_inv_iff)
  from after_clear.hyps(2) mapClear_live[OF len, of w]
  have "m' = m\<lparr>buckets := replicate (capacity m) [], size' := 0\<rparr>" by simp
  with cap show ?case by (simp add: map_inv_def bucket_inv_iff entries_def)
next
  case (after_resize m n calloc_ok r m')
  from mapResize_fields[of m n calloc_ok] after_resize.hyps(2)
  have f: "compare m' = compare m" "hash m' = hash m" by auto
  with after_resize have inv: "map_inv m" and ok: "equality_ok (compare m)" by simp_all
  show ?case
  proof (cases r)
    case False
    with after_resize.hyps(2) have "m' = m" by (auto simp: mapResize_def split: if_splits)
    with inv show ?thesis by simp
  next
    case True
    with after_resize.hyps(2) mapResize_step[OF inv ok, of n calloc_ok "Some m'"]
    show ?thesis by auto
  qed
qed

lemma demo_table_reachable: "reachable demo_table"
  using reachable.created[OF fresh_table_created] demo_table_reached
  by (rule reachable_mapPut_all)

lemma last_put_of_call:
  assumes "k \<in> set (map fst puts)" and "cmp k k = 0"
  shows "\<exists>v. last_put cmp puts k = Some v"
  using assms
proof (induction puts)
  case Nil
  then show ?case by simp
next
  case (Cons p puts)
  obtain k' v where p: "p = (k', v)" by (cases p)
  show ?case
  proof (cases "last_put cmp puts k")
    case None
    with Cons p have "k = k'" by auto
    with None p Cons.prems(2) show ?thesis by simp
  next
    case (Some x)
    with p show ?thesis by simp
  qed
qed

lemma holders_single:
  assumes inv: "map_inv m" and ok: "equality_ok (compare m)" and l: "lookup m k = Some v"
  shows "\<exists>e. holders m k = [e] \<and> value e = v"
proof -
  from l obtain e es where h: "holders m k = e # es" "value e = v"
    unfolding holders_lookup by (auto split: list.splits)
  with holders_at_most_one[OF inv ok, of k] have "es = []" by simp
  with h show ?thesis by simp
qed

section \<open>A key that later operations leave alone\<close>

text \<open>
  The value just put is found by a \<open>mapGet\<close> that follows at once; this needs no more
  than the bucket array in order and \<open>k\<close> equal to itself.
\<close>

lemma put_at_once:
  assumes inv: "bucket_inv m" and refl: "compare m k k = 0"
    and put: "mapPut (Some m) (Some k) v malloc_ok w = (True, mp', w')"
  shows "mapGet mp' (Some k) = v"
proof -
  let ?i = "hash m k mod capacity m"
  have i: "?i < length (buckets m)" using inv by (rule index_in_range)
  show ?thesis
  proof (cases "\<exists>e \<in> set (buckets m ! ?i). compare m (key e) k = 0")
    case False
    then have no: "\<forall>e \<in> set (buckets m ! ?i). compare m (key e) k \<noteq> 0" by blast
    from put mapPut_new[OF no, of v malloc_ok w]
    have "mp' = Some (m\<lparr>buckets := (buckets m)[?i := \<lparr>key = k, value = v\<rparr> # buckets m ! ?i],
        size' := size' m + 1\<rparr>)"
      by (auto split: if_splits)
    with i refl show ?thesis by (simp add: mapGet_def)
  next
    case True
    then obtain pre e post where d: "buckets m ! ?i = pre @ e # post"
      "\<forall>x \<in> set pre. compare m (key x) k \<noteq> 0" "compare m (key e) k = 0"
      by (rule first_match)
    from put mapPut_update[OF d, of v malloc_ok w]
    have "mp' = Some (m\<lparr>buckets := (buckets m)[?i := pre @ e\<lparr>value := v\<rparr> # post]\<rparr>)" by simp
    with i d show ?thesis by (simp add: mapGet_def mapGet_loop_first)
  qed
qed

lemma untouched_operation:
  assumes inv: "map_inv m" and ok: "equality_ok (compare m)"
    and hc: "hash_consistent (hash m) (compare m)"
    and un: "\<not> touches (compare m) k op"
    and ap: "apply_operation op (Some m, w) = (mp', w')"
  shows "\<exists>m'. mp' = Some m' \<and> map_inv m' \<and> compare m' = compare m \<and> hash m' = hash m \<and>
    lookup m' k = lookup m k"
proof -
  from ok have sym: "\<And>a b. compare m a b = 0 \<Longrightarrow> compare m b a = 0"
    unfolding equality_ok_def by blast
  show ?thesis
  proof (cases op)
    case (Put kp v malloc_ok)
    obtain r mp1 w1 where p: "mapPut (Some m) kp v malloc_ok w = (r, mp1, w1)"
      by (cases "mapPut (Some m) kp v malloc_ok w")
    with ap Put have mp1: "mp1 = mp'" by simp
    show ?thesis
    proof (cases r)
      case False
      with p have "mapPut (Some m) kp v malloc_ok w = (False, mp1, w1)" by simp
      from mapPut_failed[OF this] mp1 inv show ?thesis by auto
    next
      case True
      with p obtain k' where kp: "kp = Some k'" by (cases kp) (auto simp: mapPut_def)
      with un Put have ne: "compare m k' k \<noteq> 0" using sym by auto
      from p True kp have "mapPut (Some m) (Some k') v malloc_ok w = (True, mp1, w1)" by simp
      from mapPut_step[OF inv ok hc this] ne mp1 show ?thesis by auto
    qed
  next
    case (Remove kp)
    obtain r mp1 w1 where p: "mapRemove (Some m) kp w = (r, mp1, w1)"
      by (cases "mapRemove (Some m) kp w")
    with ap Remove have mp1: "mp1 = mp'" by simp
    show ?thesis
    proof (cases kp)
      case None
      with p mp1 inv show ?thesis by (auto simp: mapRemove_def)
    next
      case (Some k')
      with un Remove have ne: "compare m k' k \<noteq> 0" using sym by auto
      from mapRemove_step[OF inv ok hc p[unfolded Some]] ne mp1 show ?thesis by auto
    qed
  next
    case (Resize n calloc_ok)
    obtain r mp1 where p: "mapResize (Some m) n calloc_ok = (r, mp1)"
      by (cases "mapResize (Some m) n calloc_ok")
    with ap Resize have mp1: "mp1 = mp'" by simp
    show ?thesis
    proof (cases r)
      case False
      with p have "mp1 = Some m" by (auto simp: mapResize_def split: if_splits)
      with mp1 inv show ?thesis by auto
    next
      case True
      with p have "mapResize (Some m) n calloc_ok = (True, mp1)" by simp
      from mapResize_step[OF inv ok this] mp1 show ?thesis by auto
    qed
  qed
qed

lemma untouched_operations:
  assumes "map_inv m" and "equality_ok (compare m)" and "hash_consistent (hash m) (compare m)"
    and "\<forall>op \<in> set ops. \<not> touches (compare m) k op"
    and "fold apply_operation ops (Some m, w) = (mp', w')"
  shows "\<exists>m'. mp' = Some m' \<and> map_inv m' \<and> compare m' = compare m \<and> hash m' = hash m \<and>
    lookup m' k = lookup m k"
  using assms
proof (induction ops arbitrary: m w)
  case Nil
  then show ?case by auto
next
  case (Cons op ops)
  obtain mp1 w1 where a: "apply_operation op (Some m, w) = (mp1, w1)"
    by (cases "apply_operation op (Some m, w)")
  from Cons.prems(4) have un: "\<not> touches (compare m) k op"
    and rest: "\<forall>op \<in> set ops. \<not> touches (compare m) k op" by simp_all
  from untouched_operation[OF Cons.prems(1-3) un a] obtain m1 where m1: "mp1 = Some m1"
    "map_inv m1" "compare m1 = compare m" "hash m1 = hash m" "lookup m1 k = lookup m k"
    by blast
  from Cons.prems(5) a m1(1) have f: "fold apply_operation ops (Some m1, w1) = (mp', w')"
    by simp
  from Cons.IH[OF m1(2) _ _ _ f] Cons.prems(2,3) rest m1 show ?case by simp
qed

section \<open>Absent table\<close>

text \<open>
  Claim C9. With a \<open>NULL\<close> table, \<open>mapPut\<close>, \<open>mapRemove\<close>, \<open>mapResize\<close> and \<open>mapContains\<close>
  return false, \<open>mapGet\<close> returns \<open>NULL\<close>, \<open>mapClear\<close> does nothing (as do \<open>mapSize\<close>,
  which returns 0, and \<open>mapDestroy\<close>), and neither the table reference nor the world
  changes.
\<close>

theorem null_table_tolerated:
  "mapPut None kp v malloc_ok w = (False, None, w) \<and>
   mapRemove None kp w = (False, None, w) \<and>
   mapResize None newCapacity calloc_ok = (False, None) \<and>
   mapContains None kp = False \<and>
   mapGet None kp = None \<and>
   mapClear None w = (None, w) \<and>
   mapSize None = 0 \<and>
   mapDestroy None w = (None, w)"
  by (simp add: mapPut_def mapRemove_def mapResize_def mapContains_def mapGet_def
      mapClear_def mapSize_def mapDestroy_def)

section \<open>Round trip\<close>

text \<open>
  Claim C2. In a live table, under the contract of the injected functions: if \<open>mapPut\<close>
  of a non-null key \<open>k\<close> and a value \<open>v\<close> reports success, then \<open>mapGet\<close> of \<open>k\<close> returns
  \<open>v\<close>, at once and also after any further operations, successful or not, as long as
  none of them removes a key equal to \<open>k\<close> or puts one again (\<open>mapClear\<close> and
  \<open>mapDestroy\<close> remove every key, so they are not among them).
\<close>

theorem put_then_get:
  assumes inv: "map_inv m" and ok: "equality_ok (compare m)"
    and hc: "hash_consistent (hash m) (compare m)"
    and put: "mapPut (Some m) (Some k) v malloc_ok w = (True, mp1, w1)"
    and later: "fold apply_operation ops (mp1, w1) = (mp2, w2)"
    and kept: "\<forall>op \<in> set ops. \<not> touches (compare m) k op"
  shows "mapGet mp1 (Some k) = v \<and> mapGet mp2 (Some k) = v"
proof -
  from ok have refl: "compare m k k = 0" unfolding equality_ok_def by blast
  from mapPut_step[OF inv ok hc put] refl obtain m1 where m1: "mp1 = Some m1" "map_inv m1"
    "compare m1 = compare m" "hash m1 = hash m" "lookup m1 k = Some v"
    by auto
  have ok1: "equality_ok (compare m1)" and hc1: "hash_consistent (hash m1) (compare m1)"
    using ok hc m1 by simp_all
  have kept1: "\<forall>op \<in> set ops. \<not> touches (compare m1) k op" using kept m1 by simp
  from untouched_operations[OF m1(2) ok1 hc1 kept1 later[unfolded m1(1)]]
  obtain m2 where m2: "mp2 = Some m2" "map_inv m2" "compare m2 = compare m1" "hash m2 = hash m1"
    "lookup m2 k = lookup m1 k" by blast
  have ok2: "equality_ok (compare m2)" and hc2: "hash_consistent (hash m2) (compare m2)"
    using ok1 hc1 m2 by simp_all
  from mapGet_lookup[OF m1(2) ok1 hc1, of k] mapGet_lookup[OF m2(2) ok2 hc2, of k] m1 m2
  show ?thesis by simp
qed

theorem put_then_get_witness:
  "mapPut (Some demo_table) (Some 5) (Some ''five'') True [] =
     (True,
      Some (demo_table\<lparr>buckets :=
              [[\<lparr>key = 2, value = Some ''two''\<rparr>],
               [\<lparr>key = 5, value = Some ''five''\<rparr>, \<lparr>key = 3, value = Some ''three''\<rparr>,
                \<lparr>key = 1, value = Some ''one''\<rparr>]],
            size' := 4\<rparr>), []) \<and>
   fold apply_operation [Remove (Some 3), Put (Some 2) None False]
     (Some (demo_table\<lparr>buckets :=
              [[\<lparr>key = 2, value = Some ''two''\<rparr>],
               [\<lparr>key = 5, value = Some ''five''\<rparr>, \<lparr>key = 3, value = Some ''three''\<rparr>,
                \<lparr>key = 1, value = Some ''one''\<rparr>]],
            size' := 4\<rparr>), []) =
     (Some (demo_table\<lparr>buckets :=
              [[\<lparr>key = 2, value = None\<rparr>],
               [\<lparr>key = 5, value = Some ''five''\<rparr>, \<lparr>key = 1, value = Some ''one''\<rparr>]],
            size' := 3\<rparr>),
      [ReleasedKey 3, ReleasedValue (Some ''three''), ReleasedValue (Some ''two'')]) \<and>
   mapGet (Some (demo_table\<lparr>buckets :=
              [[\<lparr>key = 2, value = None\<rparr>],
               [\<lparr>key = 5, value = Some ''five''\<rparr>, \<lparr>key = 1, value = Some ''one''\<rparr>]],
            size' := 3\<rparr>)) (Some 5) = Some ''five''"
proof -
  let ?T1 = "demo_table\<lparr>buckets :=
              [[\<lparr>key = 2, value = Some ''two''\<rparr>],
               [\<lparr>key = 5, value = Some ''five''\<rparr>, \<lparr>key = 3, value = Some ''three''\<rparr>,
                \<lparr>key = 1, value = Some ''one''\<rparr>]],
            size' := 4\<rparr>"
  let ?T2 = "demo_table\<lparr>buckets :=
              [[\<lparr>key = 2, value = None\<rparr>],
               [\<lparr>key = 5, value = Some ''five''\<rparr>, \<lparr>key = 1, value = Some ''one''\<rparr>]],
            size' := 3\<rparr>"
  let ?ops = "[Remove (Some 3), Put (Some 2) None False]"
  have put: "mapPut (Some demo_table) (Some 5) (Some ''five'') True [] = (True, Some ?T1, [])"
    by (simp add: demo_table_def mapPut_def natHash_def natCompare_def Let_def)
  have later: "fold apply_operation ?ops (Some ?T1, []) =
      (Some ?T2, [ReleasedKey 3, ReleasedValue (Some ''three''), ReleasedValue (Some ''two'')])"
    by (simp add: demo_table_def mapPut_def mapRemove_def natHash_def natCompare_def Let_def
        logKey_def logValue_def)
  have kept: "\<forall>op \<in> set ?ops. \<not> touches (compare demo_table) 5 op"
    by (simp add: demo_table_def natCompare_def)
  from put later put_then_get[OF demo_table_inv demo_table_contract put later kept]
  show ?thesis by simp
qed

section \<open>Overwriting an existing key\<close>

text \<open>
  Claim C4. In a live table where some entry's key equals \<open>k\<close>, under a hash that is
  consistent with the equality, \<open>mapPut\<close> of \<open>k\<close> and \<open>v\<close> reports success whatever the
  allocator would do. The first entry \<open>e\<close> of the chain whose key equals \<open>k\<close> gets the
  value \<open>v\<close> and keeps its key; the table changes in nothing else, so there is no new
  entry and \<open>size\<close> is unchanged. The world changes by one call of the value release
  function, on the old value of \<open>e\<close>: the key argument is neither stored nor released.
\<close>

theorem put_existing_key:
  assumes inv: "map_inv m" and hc: "hash_consistent (hash m) (compare m)"
    and held: "holders m k \<noteq> []"
  shows "\<exists>pre e post m'.
    buckets m ! (hash m k mod capacity m) = pre @ e # post \<and>
    (\<forall>x \<in> set pre. compare m (key x) k \<noteq> 0) \<and> compare m (key e) k = 0 \<and>
    m' = m\<lparr>buckets := (buckets m)[hash m k mod capacity m := pre @ e\<lparr>value := v\<rparr> # post]\<rparr> \<and>
    mapPut (Some m) (Some k) v malloc_ok w = (True, Some m', freeValue m (value e) w) \<and>
    mapSize (Some m') = mapSize (Some m) \<and>
    map key (entries m') = map key (entries m) \<and>
    map_inv m' \<and>
    mapGet (Some m) (Some k) = value e \<and>
    mapGet (Some m') (Some k) = v"
proof -
  let ?i = "hash m k mod capacity m"
  from inv have binv: "bucket_inv m" by (simp add: map_inv_def)
  have i: "?i < length (buckets m)" using binv by (rule index_in_range)
  from held have "\<exists>e \<in> set (entries m). compare m (key e) k = 0"
    unfolding holders_def filter_empty_conv by blast
  then have "\<exists>e \<in> set (buckets m ! ?i). compare m (key e) k = 0"
    unfolding present_iff_in_chain[OF binv hc] .
  then obtain pre e post where d: "buckets m ! ?i = pre @ e # post"
    "\<forall>x \<in> set pre. compare m (key x) k \<noteq> 0" "compare m (key e) k = 0"
    by (rule first_match)
  let ?m' = "m\<lparr>buckets := (buckets m)[?i := pre @ e\<lparr>value := v\<rparr> # post]\<rparr>"
  have inv': "map_inv ?m'" using inv d(1) by (rule map_inv_put_update)
  have keys: "map key (entries ?m') = map key (entries m)"
    using concat_upd[OF i, of "pre @ e\<lparr>value := v\<rparr> # post"] concat_split[OF i] d(1)
    by (simp add: entries_def)
  have get': "mapGet (Some ?m') (Some k) = v"
    using i d by (simp add: mapGet_def mapGet_loop_first)
  from d mapPut_update[OF d, of v malloc_ok w] mapGet_present[OF d] inv' keys get'
  show ?thesis
    by (intro exI[of _ pre] exI[of _ e] exI[of _ post] exI[of _ ?m']) (simp add: mapSize_def)
qed

theorem put_existing_key_witness:
  "mapPut (Some demo_table) (Some 1) (Some ''uno'') False [] =
     (True,
      Some (demo_table\<lparr>buckets :=
              [[\<lparr>key = 2, value = Some ''two''\<rparr>],
               [\<lparr>key = 3, value = Some ''three''\<rparr>, \<lparr>key = 1, value = Some ''uno''\<rparr>]]\<rparr>),
      [ReleasedValue (Some ''one'')])"
proof -
  have held: "holders demo_table 1 \<noteq> []"
    by (simp add: holders_def entries_def demo_table_def natCompare_def)
  from put_existing_key[OF demo_table_inv demo_table_contract(2) held, of "Some ''uno''" False "[]"]
  show ?thesis
    by (simp add: demo_table_def mapPut_def natHash_def natCompare_def Let_def logValue_def)
qed

section \<open>Rejected resize\<close>

text \<open>
  Claim C5. \<open>mapResize\<close> to capacity 0, or to a capacity below \<open>size\<close>, fails and
  returns the table it was given: capacity, size and the result of every \<open>mapGet\<close> are
  what they were.
\<close>

theorem resize_rejected:
  assumes "newCapacity = 0 \<or> newCapacity < mapSize (Some m)"
  shows "mapResize (Some m) newCapacity calloc_ok = (False, Some m)"
  using assms by (auto simp: mapResize_def mapSize_def)

theorem resize_rejected_witness:
  "mapResize (Some demo_table) 0 True = (False, Some demo_table) \<and>
   mapResize (Some demo_table) 2 True = (False, Some demo_table)"
proof -
  have "(2::nat) < mapSize (Some demo_table)" by (simp add: mapSize_def demo_table_def)
  then show ?thesis
    using resize_rejected[of 0 demo_table True] resize_rejected[of 2 demo_table True] by simp
qed

section \<open>Removal\<close>

text \<open>
  Claim C6. In a live table, under the contract of the injected functions, \<open>mapRemove\<close>
  of a non-null key \<open>k\<close> reports success exactly when some entry's key equals \<open>k\<close>. On
  success the first such entry \<open>e\<close> of the chain is unlinked and is no longer an entry
  of the table, the key release function and then the value release function are
  called on its key and its value, and \<open>size\<close> goes down by one. On failure table and
  world are unchanged. A second \<open>mapRemove\<close> of \<open>k\<close>, called at once, reports failure.
\<close>

theorem remove_entry:
  assumes inv: "map_inv m" and ok: "equality_ok (compare m)"
    and hc: "hash_consistent (hash m) (compare m)"
    and rem: "mapRemove (Some m) (Some k) w = (r, mp', w')"
  shows "r = (holders m k \<noteq> []) \<and>
    (r \<longrightarrow> (\<exists>pre e post m'.
       buckets m ! (hash m k mod capacity m) = pre @ e # post \<and>
       (\<forall>x \<in> set pre. compare m (key x) k \<noteq> 0) \<and> compare m (key e) k = 0 \<and>
       m' = m\<lparr>buckets := (buckets m)[hash m k mod capacity m := pre @ post],
               size' := size' m - 1\<rparr> \<and>
       mp' = Some m' \<and>
       w' = freeValue m (value e) (freeKey m (key e) w) \<and>
       e \<notin> set (entries m') \<and> set (entries m) = insert e (set (entries m')) \<and>
       Suc (mapSize mp') = mapSize (Some m))) \<and>
    (\<not> r \<longrightarrow> mp' = Some m \<and> w' = w) \<and>
    fst (mapRemove mp' (Some k) w') = False"
proof -
  let ?i = "hash m k mod capacity m"
  let ?bs = "buckets m"
  from inv have binv: "bucket_inv m"
    and uniq: "keys_unique (compare m) (map key (entries m))"
    and sz: "size' m = length (entries m)" by (simp_all add: map_inv_def)
  have i: "?i < length ?bs" using binv by (rule index_in_range)
  from ok have refl: "compare m k k = 0" unfolding equality_ok_def by blast
  from mapRemove_step[OF inv ok hc rem] obtain m' where
    r: "r = (lookup m k \<noteq> None)" and m': "mp' = Some m'" "map_inv m'" "compare m' = compare m"
      "hash m' = hash m"
    and look: "\<And>k'. lookup m' k' = (if compare m k k' = 0 then None else lookup m k')"
    by blast
  have 1: "r = (holders m k \<noteq> [])" using r by (simp add: holders_Nil_iff)
  have 4: "fst (mapRemove mp' (Some k) w') = False"
  proof -
    obtain r2 mp2 w2 where rem2: "mapRemove (Some m') (Some k) w' = (r2, mp2, w2)"
      by (cases "mapRemove (Some m') (Some k) w'")
    have "equality_ok (compare m')" "hash_consistent (hash m') (compare m')"
      using ok hc m' by simp_all
    from mapRemove_step[OF m'(2) this rem2] have "r2 = (lookup m' k \<noteq> None)" by blast
    with look[of k] refl have "\<not> r2" by simp
    with rem2 m'(1) show ?thesis by simp
  qed
  show ?thesis
  proof (cases "\<exists>e \<in> set (?bs ! ?i). compare m (key e) k = 0")
    case False
    then have no: "\<forall>e \<in> set (?bs ! ?i). compare m (key e) k \<noteq> 0" by blast
    from rem mapRemove_absent[OF no, of w] have "\<not> r" "mp' = Some m" "w' = w" by simp_all
    with 1 4 show ?thesis by simp
  next
    case True
    then obtain pre e post where d: "?bs ! ?i = pre @ e # post"
      "\<forall>x \<in> set pre. compare m (key x) k \<noteq> 0" "compare m (key e) k = 0"
      by (rule first_match)
    let ?m' = "m\<lparr>buckets := ?bs[?i := pre @ post], size' := size' m - 1\<rparr>"
    from rem mapRemove_present[OF d, of w] have res: "r" "mp' = Some ?m'"
      "w' = freeValue m (value e) (freeKey m (key e) w)" by simp_all
    have old: "entries m = concat (take ?i ?bs) @ (pre @ e # post) @ concat (drop (Suc ?i) ?bs)"
      unfolding entries_def d(1)[symmetric] using i by (rule concat_split)
    have new: "entries ?m' = concat (take ?i ?bs) @ (pre @ post) @ concat (drop (Suc ?i) ?bs)"
      using concat_upd[OF i, of "pre @ post"] by simp
    have "distinct (entries m)" using uniq ok by (rule entries_distinct)
    then have e_out: "e \<notin> set (entries ?m')" unfolding old new by auto
    have S: "set (entries m) = insert e (set (entries ?m'))" unfolding old new by auto
    have "0 < size' m" using sz old by simp
    then have size: "Suc (mapSize (Some ?m')) = mapSize (Some m)" by (simp add: mapSize_def)
    have "\<exists>pre e post m'.
       ?bs ! ?i = pre @ e # post \<and>
       (\<forall>x \<in> set pre. compare m (key x) k \<noteq> 0) \<and> compare m (key e) k = 0 \<and>
       m' = m\<lparr>buckets := ?bs[?i := pre @ post], size' := size' m - 1\<rparr> \<and>
       mp' = Some m' \<and>
       w' = freeValue m (value e) (freeKey m (key e) w) \<and>
       e \<notin> set (entries m') \<and> set (entries m) = insert e (set (entries m')) \<and>
       Suc (mapSize mp') = mapSize (Some m)"
      using d res(2,3) e_out S size
      by (intro exI[of _ pre] exI[of _ e] exI[of _ post] exI[of _ ?m']) simp
    with 1 4 res(1) show ?thesis by blast
  qed
qed

theorem remove_entry_witness:
  "mapRemove (Some demo_table) (Some 1) [] =
     (True,
      Some (demo_table\<lparr>buckets :=
              [[\<lparr>key = 2, value = Some ''two''\<rparr>], [\<lparr>key = 3, value = Some ''three''\<rparr>]],
            size' := 2\<rparr>),
      [ReleasedKey 1, ReleasedValue (Some ''one'')]) \<and>
   fst (mapRemove
     (Some (demo_table\<lparr>buckets :=
              [[\<lparr>key = 2, value = Some ''two''\<rparr>], [\<lparr>key = 3, value = Some ''three''\<rparr>]],
            size' := 2\<rparr>))
     (Some 1) [ReleasedKey 1, ReleasedValue (Some ''one'')]) = False"
proof -
  have rem: "mapRemove (Some demo_table) (Some 1) [] =
     (True,
      Some (demo_table\<lparr>buckets :=
              [[\<lparr>key = 2, value = Some ''two''\<rparr>], [\<lparr>key = 3, value = Some ''three''\<rparr>]],
            size' := 2\<rparr>),
      [ReleasedKey 1, ReleasedValue (Some ''one'')])"
    by (simp add: demo_table_def mapRemove_def natHash_def natCompare_def Let_def logKey_def
        logValue_def)
  from rem remove_entry[OF demo_table_inv demo_table_contract rem] show ?thesis by simp
qed

section \<open>Clearing\<close>

text \<open>
  Claim C7. After \<open>mapClear\<close> of a live table \<open>mapSize\<close> is 0 and \<open>mapContains\<close> is false
  for every key, while \<open>capacity\<close> is unchanged. The key and the value of every entry
  have been released, bucket by bucket. The table remains usable: it satisfies the
  invariants, and a \<open>mapPut\<close> whose allocation succeeds stores its entry.
\<close>

theorem clear_resets:
  assumes inv: "bucket_inv m"
  shows "\<exists>m'. mapClear (Some m) w =
      (Some m', mapClear_chain (freeKey m) (freeValue m) (entries m) w) \<and>
    m' = m\<lparr>buckets := replicate (capacity m) [], size' := 0\<rparr> \<and>
    mapSize (Some m') = 0 \<and> (\<forall>kp. mapContains (Some m') kp = False) \<and>
    capacity m' = capacity m \<and> entries m' = [] \<and> map_inv m' \<and>
    (\<forall>k v w1. mapPut (Some m') (Some k) v True w1 =
       (True,
        Some (m'\<lparr>buckets := (buckets m')[hash m k mod capacity m := [\<lparr>key = k, value = v\<rparr>]],
                 size' := 1\<rparr>), w1))"
proof -
  let ?m' = "m\<lparr>buckets := replicate (capacity m) [], size' := 0\<rparr>"
  from inv have len: "length (buckets m) = capacity m" and cap: "0 < capacity m"
    by (simp_all add: bucket_inv_iff)
  have chain: "buckets ?m' ! (hash ?m' k mod capacity ?m') = []" for k
    using cap by simp
  have get: "mapGet (Some ?m') kp = None" for kp
    using cap by (cases kp) (simp_all add: mapGet_def)
  have inv': "map_inv ?m'"
    using cap by (simp add: map_inv_def bucket_inv_iff entries_def)
  have put: "mapPut (Some ?m') (Some k) v True w1 =
       (True,
        Some (?m'\<lparr>buckets := (buckets ?m')[hash m k mod capacity m := [\<lparr>key = k, value = v\<rparr>]],
                 size' := 1\<rparr>), w1)" for k v w1
    using cap by (simp add: mapPut_def Let_def)
  from mapClear_live[OF len, of w] get inv' put show ?thesis
    by (intro exI[of _ ?m']) (simp add: mapSize_def mapContains_def entries_def)
qed

theorem clear_resets_witness:
  "mapClear (Some demo_table) [] =
     (Some (demo_table\<lparr>buckets := [[], []], size' := 0\<rparr>),
      [ReleasedKey 2, ReleasedValue (Some ''two''), ReleasedKey 3, ReleasedValue (Some ''three''),
       ReleasedKey 1, ReleasedValue (Some ''one'')]) \<and>
   mapContains (Some (demo_table\<lparr>buckets := [[], []], size' := 0\<rparr>)) (Some 1) = False"
proof -
  have binv: "bucket_inv demo_table" using demo_table_inv by (simp add: map_inv_def)
  have "replicate (capacity demo_table) [] = [[], []]"
    by (simp add: demo_table_def numeral_2_eq_2)
  with clear_resets[OF binv, of "[]"] show ?thesis
    by (auto simp: demo_table_def entries_def logKey_def logValue_def)
qed

section \<open>Resize\<close>

text \<open>
  Claim C3. In a live table, under the contract of the injected functions, a successful
  \<open>mapResize\<close> to \<open>newCapacity\<close> (which is then at least 1 and at least \<open>size\<close>)
  preserves the contents: \<open>mapGet\<close> and \<open>mapContains\<close> return for every key what they
  returned before, and \<open>mapSize\<close> is unchanged. The entries are the same ones, the
  capacity is \<open>newCapacity\<close> and the invariants hold again.
\<close>

theorem resize_preserves:
  assumes inv: "map_inv m" and ok: "equality_ok (compare m)"
    and hc: "hash_consistent (hash m) (compare m)"
    and res: "mapResize (Some m) newCapacity calloc_ok = (True, mp')"
  shows "1 \<le> newCapacity \<and> mapSize (Some m) \<le> newCapacity \<and>
    (\<forall>kp. mapGet mp' kp = mapGet (Some m) kp) \<and>
    (\<forall>kp. mapContains mp' kp = mapContains (Some m) kp) \<and>
    mapSize mp' = mapSize (Some m) \<and>
    (\<exists>m'. mp' = Some m' \<and> capacity m' = newCapacity \<and> map_inv m' \<and>
       mset (entries m') = mset (entries m))"
proof -
  from res have n: "1 \<le> newCapacity" "mapSize (Some m) \<le> newCapacity"
    unfolding mapResize_success by (simp_all add: mapSize_def)
  from mapResize_step[OF inv ok res] obtain m' where m': "mp' = Some m'" "map_inv m'"
    "compare m' = compare m" "hash m' = hash m" "capacity m' = newCapacity" "size' m' = size' m"
    "mset (entries m') = mset (entries m)"
    and look: "\<And>k. lookup m' k = lookup m k" by blast
  have ok': "equality_ok (compare m')" and hc': "hash_consistent (hash m') (compare m')"
    using ok hc m' by simp_all
  have get: "mapGet mp' kp = mapGet (Some m) kp" for kp
  proof (cases kp)
    case None
    then show ?thesis by (simp add: mapGet_def m'(1))
  next
    case (Some k)
    with mapGet_lookup[OF m'(2) ok' hc', of k] mapGet_lookup[OF inv ok hc, of k] look[of k]
    show ?thesis by (simp add: m'(1))
  qed
  from n get m' show ?thesis by (simp add: mapSize_def mapContains_def)
qed

theorem resize_preserves_witness:
  "mapResize (Some demo_table) 3 True =
     (True,
      Some (demo_table\<lparr>buckets :=
              [[\<lparr>key = 3, value = Some ''three''\<rparr>], [\<lparr>key = 1, value = Some ''one''\<rparr>],
               [\<lparr>key = 2, value = Some ''two''\<rparr>]],
            capacity := 3\<rparr>)) \<and>
   mapGet (Some (demo_table\<lparr>buckets :=
              [[\<lparr>key = 3, value = Some ''three''\<rparr>], [\<lparr>key = 1, value = Some ''one''\<rparr>],
               [\<lparr>key = 2, value = Some ''two''\<rparr>]],
            capacity := 3\<rparr>)) (Some 1) = Some ''one''"
proof -
  have len: "length (buckets demo_table) = capacity demo_table" by (simp add: demo_table_def)
  have sz: "size' demo_table \<le> 3" by (simp add: demo_table_def)
  have res: "mapResize (Some demo_table) 3 True =
     (True,
      Some (demo_table\<lparr>buckets :=
              [[\<lparr>key = 3, value = Some ''three''\<rparr>], [\<lparr>key = 1, value = Some ''one''\<rparr>],
               [\<lparr>key = 2, value = Some ''two''\<rparr>]],
            capacity := 3\<rparr>))"
  proof -
    have rep: "replicate 3 [] = [[], [], []::(nat, string) MapEntry list]"
      by (simp add: numeral_3_eq_3)
    show ?thesis
      unfolding mapResize_live[OF len _ sz, simplified] rep
      by (simp add: demo_table_def natHash_def Let_def)
  qed
  have get: "mapGet (Some demo_table) (Some 1) = Some ''one''"
    by (simp add: mapGet_def demo_table_def natHash_def natCompare_def)
  from res get resize_preserves[OF demo_table_inv demo_table_contract res] show ?thesis by simp
qed

section \<open>Every entry in its bucket\<close>

text \<open>
  Claim C8. In every table that a program can reach from \<open>mapCreate\<close> by \<open>mapPut\<close>,
  \<open>mapRemove\<close>, \<open>mapClear\<close> and \<open>mapResize\<close> (\<open>mapGet\<close>, \<open>mapContains\<close> and \<open>mapSize\<close>
  change nothing), the bucket array has \<open>capacity\<close> slots and every entry lies in the
  bucket at index \<open>hash(key) mod capacity\<close>. Each operation preserves this
  (\<open>bucket_inv_put\<close>, \<open>bucket_inv_remove\<close>, \<open>bucket_inv_clear\<close>), and \<open>mapResize\<close>
  establishes it for the new capacity (\<open>bucket_inv_resize\<close>). It holds for any injected
  functions, so in particular for a hash that is consistent with the equality.
\<close>

theorem reachable_bucket_inv:
  assumes "reachable m"
  shows "bucket_inv m"
  using assms
proof (induction rule: reachable.induct)
  case (created n h c fk fv malloc_ok calloc_ok m)
  from mapCreate_live[OF this] show ?case by (simp add: map_inv_def)
next
  case (after_put m kp v malloc_ok w r m' w')
  then show ?case by (blast intro: bucket_inv_put)
next
  case (after_remove m kp w r m' w')
  then show ?case by (blast intro: bucket_inv_remove)
next
  case (after_clear m w m' w')
  then show ?case by (blast intro: bucket_inv_clear)
next
  case (after_resize m n calloc_ok r m')
  then show ?case by (blast intro: bucket_inv_resize)
qed

theorem reachable_bucket_inv_witness:
  "bucket_inv demo_table \<and>
   buckets demo_table ! (hash demo_table 3 mod capacity demo_table) =
     [\<lparr>key = 3, value = Some ''three''\<rparr>, \<lparr>key = 1, value = Some ''one''\<rparr>]"
  using reachable_bucket_inv[OF demo_table_reachable]
  by (simp add: demo_table_def natHash_def)

section \<open>Unique keys\<close>

text \<open>
  Claim C1. Take a live table that is empty (as \<open>mapCreate\<close> and \<open>mapClear\<close> leave it),
  injected functions that meet their contract (the equality is an equivalence and equal
  keys hash identically), and any sequence of \<open>mapPut\<close> calls on it. The keys put are
  those of the calls that report success (a call fails when its key is \<open>NULL\<close> or when
  the entry it needs cannot be allocated, and then changes nothing). After the sequence
  \<open>mapSize\<close> is the number of distinct keys put, and every key put is held by exactly
  one entry, whose value is the value most recently put for an equal key; \<open>mapGet\<close>
  returns that value. No other key is held.
\<close>

theorem put_sequence_unique:
  assumes inv: "map_inv m" and empty: "mapSize (Some m) = 0"
    and ok: "equality_ok (compare m)" and hc: "hash_consistent (hash m) (compare m)"
    and run: "mapPut_all (Some m) calls w = (rs, mp', w')"
  shows "mapSize mp' = distinct_keys (compare m) (map fst (succeeded calls rs)) \<and>
    (\<exists>m'. mp' = Some m' \<and> map_inv m' \<and>
      (\<forall>k \<in> set (map fst (succeeded calls rs)). \<exists>e v.
         last_put (compare m) (succeeded calls rs) k = Some v \<and>
         holders m' k = [e] \<and> value e = v \<and> mapGet mp' (Some k) = v) \<and>
      (\<forall>k. last_put (compare m) (succeeded calls rs) k = None \<longrightarrow> holders m' k = []))"
proof -
  let ?puts = "succeeded calls rs"
  from inv empty have "entries m = []" by (simp add: map_inv_def mapSize_def)
  then have none: "lookup m k = None" for k by (simp add: lookup_def)
  from mapPut_all_general[OF inv ok hc run] obtain m' where m': "mp' = Some m'" "map_inv m'"
    "compare m' = compare m" "hash m' = hash m"
    and look: "\<And>k. lookup m' k =
      (case last_put (compare m) ?puts k of Some x \<Rightarrow> Some x | None \<Rightarrow> lookup m k)"
    and size: "size' m' = size' m +
      distinct_keys (compare m) (filter (\<lambda>k. lookup m k = None) (map fst ?puts))"
    by blast
  have ok': "equality_ok (compare m')" and hc': "hash_consistent (hash m') (compare m')"
    using ok hc m' by simp_all
  from ok have refl: "\<And>k. compare m k k = 0" unfolding equality_ok_def by blast
  have 1: "mapSize mp' = distinct_keys (compare m) (map fst ?puts)"
    using size empty none by (simp add: mapSize_def m'(1))
  have 2: "\<exists>e v. last_put (compare m) ?puts k = Some v \<and> holders m' k = [e] \<and> value e = v \<and>
         mapGet mp' (Some k) = v" if "k \<in> set (map fst ?puts)" for k
  proof -
    from last_put_of_call[of k ?puts "compare m", OF that refl]
    obtain v where v: "last_put (compare m) ?puts k = Some v" by blast
    with look[of k] have l: "lookup m' k = Some v" by simp
    from holders_single[OF m'(2) ok' l] obtain e where "holders m' k = [e]" "value e = v" by blast
    moreover from mapGet_lookup[OF m'(2) ok' hc', of k] l have "mapGet mp' (Some k) = v"
      by (simp add: m'(1))
    ultimately show ?thesis using v by blast
  qed
  have 3: "holders m' k = []" if "last_put (compare m) ?puts k = None" for k
    using that look[of k] none[of k] by (simp add: holders_Nil_iff)
  from 1 2 3 m'(1,2) show ?thesis by blast
qed

theorem put_sequence_unique_witness:
  "mapPut_all (Some fresh_table)
     [(Some 1, Some ''a'', True), (None, Some ''x'', True), (Some 3, None, True),
      (Some 5, Some ''e'', False), (Some 1, Some ''c'', False)] []
     = ([True, False, True, False, True],
        Some (fresh_table\<lparr>buckets :=
                [[], [\<lparr>key = 3, value = None\<rparr>, \<lparr>key = 1, value = Some ''c''\<rparr>]],
              size' := 2\<rparr>),
        [ReleasedValue (Some ''a'')]) \<and>
   mapSize (Some (fresh_table\<lparr>buckets :=
                [[], [\<lparr>key = 3, value = None\<rparr>, \<lparr>key = 1, value = Some ''c''\<rparr>]],
              size' := 2\<rparr>)) = 2 \<and>
   holders (fresh_table\<lparr>buckets :=
                [[], [\<lparr>key = 3, value = None\<rparr>, \<lparr>key = 1, value = Some ''c''\<rparr>]],
              size' := 2\<rparr>) 1 = [\<lparr>key = 1, value = Some ''c''\<rparr>] \<and>
   mapGet (Some (fresh_table\<lparr>buckets :=
                [[], [\<lparr>key = 3, value = None\<rparr>, \<lparr>key = 1, value = Some ''c''\<rparr>]],
              size' := 2\<rparr>)) (Some 1) = Some ''c''"
proof -
  let ?calls = "[(Some 1, Some ''a'', True), (None, Some ''x'', True), (Some 3, None, True),
      (Some 5, Some ''e'', False), (Some (1::nat), Some ''c'', False)]"
  let ?rs = "[True, False, True, False, True]"
  let ?T = "fresh_table\<lparr>buckets :=
                [[], [\<lparr>key = 3, value = None\<rparr>, \<lparr>key = 1, value = Some ''c''\<rparr>]],
              size' := 2\<rparr>"
  have run: "mapPut_all (Some fresh_table) ?calls [] = (?rs, Some ?T, [ReleasedValue (Some ''a'')])"
    by (simp add: fresh_table_def mapPut_def natHash_def natCompare_def Let_def logValue_def)
  have empty: "mapSize (Some fresh_table) = 0" by (simp add: mapSize_def fresh_table_def)
  have cmp: "compare fresh_table = natCompare" by (simp add: fresh_table_def)
  have puts: "succeeded ?calls ?rs = [(1, Some ''a''), (3, None), (1, Some ''c'')]" by simp
  have last: "last_put natCompare [(1, Some ''a''), (3, None), (1::nat, Some ''c'')] 1
      = Some (Some ''c'')"
    by (simp add: natCompare_def)
  have dk: "distinct_keys natCompare [1, 3, 1::nat] = 2" by (simp add: natCompare_def)
  from put_sequence_unique[OF fresh_table_inv empty fresh_table_contract run]
  have "mapSize (Some ?T) = 2 \<and>
    (\<exists>e v. last_put natCompare [(1, Some ''a''), (3, None), (1::nat, Some ''c'')] 1 = Some v \<and>
       holders ?T 1 = [e] \<and> value e = v \<and> mapGet (Some ?T) (Some 1) = v)"
    unfolding cmp puts using dk by simp
  with last run show ?thesis
    by (auto simp: holders_def entries_def fresh_table_def natCompare_def)
qed

section \<open>A stored \<open>NULL\<close> value\<close>

text \<open>
  Claim C10. After a successful \<open>mapPut\<close> of a key \<open>k\<close> with the value \<open>NULL\<close> the table
  has exactly one entry for \<open>k\<close>, counted by \<open>mapSize\<close> like every entry, and yet
  \<open>mapContains\<close> of \<open>k\<close> is false and \<open>mapGet\<close> of \<open>k\<close> returns \<open>NULL\<close>, which is also what
  they return for a key that no entry holds.
\<close>

theorem null_value_not_found:
  assumes inv: "map_inv m" and ok: "equality_ok (compare m)"
    and hc: "hash_consistent (hash m) (compare m)"
    and put: "mapPut (Some m) (Some k) None malloc_ok w = (True, mp', w')"
  shows "\<exists>m' e. mp' = Some m' \<and> holders m' k = [e] \<and> value e = None \<and>
    mapSize mp' = length (entries m') \<and>
    mapContains mp' (Some k) = False \<and> mapGet mp' (Some k) = None \<and>
    (\<forall>k'. holders m' k' = [] \<longrightarrow>
       mapGet mp' (Some k') = None \<and> mapContains mp' (Some k') = False)"
proof -
  from ok have refl: "compare m k k = 0" unfolding equality_ok_def by blast
  from mapPut_step[OF inv ok hc put] obtain m' where m': "mp' = Some m'" "map_inv m'"
    "compare m' = compare m" "hash m' = hash m"
    and look: "\<And>k'. lookup m' k' = (if compare m k k' = 0 then Some None else lookup m k')"
    by blast
  have ok': "equality_ok (compare m')" and hc': "hash_consistent (hash m') (compare m')"
    using ok hc m' by simp_all
  from look[of k] refl have l: "lookup m' k = Some None" by simp
  from holders_single[OF m'(2) ok' l] obtain e where e: "holders m' k = [e]" "value e = None"
    by blast
  have get: "mapGet mp' (Some k) = None"
    using mapGet_lookup[OF m'(2) ok' hc', of k] l by (simp add: m'(1))
  have size: "mapSize mp' = length (entries m')"
    using m'(2) by (simp add: mapSize_def m'(1) map_inv_def)
  have absent: "mapGet mp' (Some k') = None" if "holders m' k' = []" for k'
    using mapGet_lookup[OF m'(2) ok' hc', of k'] that by (simp add: m'(1) holders_Nil_iff)
  from m'(1) e get size absent show ?thesis by (simp add: mapContains_def)
qed

theorem null_value_not_found_witness:
  "mapPut (Some fresh_table) (Some 7) None True [] =
     (True, Some (fresh_table\<lparr>buckets := [[], [\<lparr>key = 7, value = None\<rparr>]], size' := 1\<rparr>), []) \<and>
   mapSize (Some (fresh_table\<lparr>buckets := [[], [\<lparr>key = 7, value = None\<rparr>]], size' := 1\<rparr>)) = 1 \<and>
   mapContains (Some (fresh_table\<lparr>buckets := [[], [\<lparr>key = 7, value = None\<rparr>]], size' := 1\<rparr>))
     (Some 7) = False \<and>
   mapGet (Some (fresh_table\<lparr>buckets := [[], [\<lparr>key = 7, value = None\<rparr>]], size' := 1\<rparr>))
     (Some 7) = None \<and>
   mapGet (Some (fresh_table\<lparr>buckets := [[], [\<lparr>key = 7, value = None\<rparr>]], size' := 1\<rparr>))
     (Some 8) = None"
proof -
  let ?T = "fresh_table\<lparr>buckets := [[], [\<lparr>key = 7, value = None\<rparr>]], size' := 1\<rparr>"
  have put: "mapPut (Some fresh_table) (Some 7) None True [] = (True, Some ?T, [])"
    by (simp add: fresh_table_def mapPut_def natHash_def natCompare_def Let_def)
  have abs: "holders ?T 8 = []"
    by (simp add: holders_def entries_def fresh_table_def natCompare_def)
  from null_value_not_found[OF fresh_table_inv fresh_table_contract put] abs put
  show ?thesis by (auto simp: mapSize_def entries_def)
qed

end
